theory Spec2Isabelle
  imports Complex_Main "HOL-Library.List_Lexorder" "HOL-Library.Char_ord"
    "HOL-Library.Product_Lexorder" "HOL-Library.Sublist" "HOL-Library.Multiset"
    "HOL-Library.Log_Nat"
begin

section \<open>Heat pump contribution API: the data set and its queries\<close>

text \<open>
  The development follows \<^verbatim>\<open>app.py\<close>. The data frame \<^verbatim>\<open>df\<close> is a list of rows in
  file order; a column is a field of the row record. The pandas operations the module
  calls (\<^verbatim>\<open>to_datetime\<close>, the \<^verbatim>\<open>dt\<close> accessors, \<^verbatim>\<open>str.strip\<close>, \<^verbatim>\<open>str.contains\<close>,
  boolean indexing, \<^verbatim>\<open>groupby(...).mean()\<close>, \<^verbatim>\<open>drop_duplicates\<close>, \<^verbatim>\<open>sort_values\<close>,
  \<^verbatim>\<open>mean\<close>, \<^verbatim>\<open>max\<close>, \<^verbatim>\<open>min\<close>) are written out as list functions.

  Conventions of the model:
  \<^item> a stored cell of the columns \<^verbatim>\<open>total_energy_kWh\<close> and \<^verbatim>\<open>heatpump_pct\<close> is a finite
    binary64 number, held as the rational it denotes; cells that are NaN or infinite are
    outside the model;
  \<^item> the results of arithmetic are binary64 values (\<open>f64\<close>): every operation rounds to
    the nearest binary64, ties to even, and overflows to an infinity; the sign of zero
    is not modelled;
  \<^item> the order in which the library adds the numbers of a sum is not fixed by the
    source, so the summation is a parameter \<open>sum64\<close> of the two endpoints that average;
  \<^item> strings are over ASCII;
  \<^item> instants are whole seconds since 1970-01-01T00:00:00Z, unbounded;
  \<^item> an \<^verbatim>\<open>HTTPException\<close> or an uncaught Python exception is a value of \<open>error\<close>.
\<close>

subsection \<open>Calendar arithmetic\<close>

text \<open>
  A calendar date is (year, month, day) in the proleptic Gregorian calendar, compared
  lexicographically, as \<^verbatim>\<open>datetime.date\<close> is. Days are numbered from 1970-01-01, which is
  day 0.
\<close>

type_synonym date = "int \<times> int \<times> int"

definition is_leap :: "int \<Rightarrow> bool" where
  "is_leap y = (y mod 4 = 0 \<and> (y mod 100 \<noteq> 0 \<or> y mod 400 = 0))"

definition days_in_year :: "int \<Rightarrow> int" where
  "days_in_year y = (if is_leap y then 366 else 365)"

definition days_in_month :: "int \<Rightarrow> int \<Rightarrow> int" where
  "days_in_month y m =
     (if m = 2 then (if is_leap y then 29 else 28)
      else if m = 4 \<or> m = 6 \<or> m = 9 \<or> m = 11 then 30
      else 31)"

text \<open>The number of the first day of a year, and the days of a year before a month.\<close>

definition days_before_year :: "int \<Rightarrow> int" where
  "days_before_year y =
     365 * (y - 1970) + (y - 1) div 4 - (y - 1) div 100 + (y - 1) div 400 - 477"

definition days_before_month :: "int \<Rightarrow> int \<Rightarrow> int" where
  "days_before_month y m = sum_list (map (days_in_month y) [1..m - 1])"

definition days_from_civil :: "int \<Rightarrow> int \<Rightarrow> int \<Rightarrow> int" where
  "days_from_civil y m d = days_before_year y + days_before_month y m + d - 1"

text \<open>
  From a day number to its date: walk from 1970 to the year that holds the day, then
  from January to the month that holds it.
\<close>

function year_of :: "int \<Rightarrow> int \<Rightarrow> int \<times> int" where
  "year_of y n =
     (if n < 0 then year_of (y - 1) (n + days_in_year (y - 1))
      else if days_in_year y \<le> n then year_of (y + 1) (n - days_in_year y)
      else (y, n))"
  by pat_completeness auto
termination
  by (relation "measures [\<lambda>(y, n). if n < 0 then 1 else 0, \<lambda>(y, n). nat \<bar>n\<bar>]")
    (auto simp: days_in_year_def split: if_splits)

function month_of :: "int \<Rightarrow> int \<Rightarrow> int \<Rightarrow> int \<times> int" where
  "month_of y m n =
     (if m < 12 \<and> days_in_month y m \<le> n then month_of y (m + 1) (n - days_in_month y m)
      else (m, n))"
  by pat_completeness auto
termination
  by (relation "measure (\<lambda>(y, m, n). nat (12 - m))") auto

definition civil_from_days :: "int \<Rightarrow> date" where
  "civil_from_days n =
     (case year_of 1970 n of (y, doy) \<Rightarrow>
        (case month_of y 1 doy of (m, r) \<Rightarrow> (y, m, r + 1)))"

subsection \<open>Timestamps\<close>

text \<open>
  A cell of the raw \<^verbatim>\<open>timestamp\<close> column: the civil fields as written in the file and
  the UTC offset in minutes east of Greenwich (\<open>0\<close> for \<^verbatim>\<open>Z\<close> and for a naive value,
  which \<^verbatim>\<open>utc=True\<close> reads as UTC).
\<close>

record raw_ts =
  ts_year :: int
  ts_month :: int
  ts_day :: int
  ts_hour :: int
  ts_minute :: int
  ts_second :: int
  ts_utcoffset :: int

text \<open>
  A timezone-aware pandas timestamp: the instant, and the offset (in minutes) of the
  zone its fields are read in.
\<close>

record timestamp_tz =
  instant :: int
  tz :: int

text \<open>\<^verbatim>\<open>pd.to_datetime(df['timestamp'], utc=True)\<close>: the same instant, in the zone UTC.\<close>

definition to_datetime_utc :: "raw_ts \<Rightarrow> timestamp_tz" where
  "to_datetime_utc r =
     \<lparr>instant = days_from_civil (ts_year r) (ts_month r) (ts_day r) * 86400
                 + ts_hour r * 3600 + ts_minute r * 60 + ts_second r
                 - ts_utcoffset r * 60,
      tz = 0\<rparr>"

text \<open>The wall clock of a timestamp in its own zone, in seconds on the civil time line.\<close>

definition wall :: "timestamp_tz \<Rightarrow> int" where
  "wall t = instant t + tz t * 60"

text \<open>\<^verbatim>\<open>.dt.hour\<close>, \<^verbatim>\<open>.dt.date\<close> and \<^verbatim>\<open>.dt.time\<close> read the fields of the wall clock.\<close>

definition dt_hour :: "timestamp_tz \<Rightarrow> int" where
  "dt_hour t = (wall t mod 86400) div 3600"

definition dt_date :: "timestamp_tz \<Rightarrow> date" where
  "dt_date t = civil_from_days (wall t div 86400)"

definition dt_time :: "timestamp_tz \<Rightarrow> int \<times> int \<times> int" where
  "dt_time t = ((wall t mod 86400) div 3600, (wall t mod 3600) div 60, wall t mod 60)"

text \<open>
  \<^verbatim>\<open>.dt.tz_localize(None)\<close> drops the zone and keeps the wall clock: a naive datetime.
  \<^verbatim>\<open>.dt.to_period("M")\<close> of a naive datetime is the (year, month) of its date.
\<close>

definition tz_localize_None :: "timestamp_tz \<Rightarrow> int" where
  "tz_localize_None t = wall t"

definition to_period_M :: "int \<Rightarrow> int \<times> int" where
  "to_period_M naive = (case civil_from_days (naive div 86400) of (y, m, d) \<Rightarrow> (y, m))"

subsection \<open>The data frame\<close>

text \<open>
  \<^verbatim>\<open>str.strip()\<close> removes leading and trailing whitespace; the ASCII whitespace
  characters of Python are the codes 9 to 13 and 28 to 32.
\<close>

definition isspace :: "char \<Rightarrow> bool" where
  "isspace c = (let n = (of_char c :: nat) in (9 \<le> n \<and> n \<le> 13) \<or> (28 \<le> n \<and> n \<le> 32))"

definition strip :: "string \<Rightarrow> string" where
  "strip s = rev (dropWhile isspace (rev (dropWhile isspace s)))"

text \<open>A row of the file, and a row of \<^verbatim>\<open>df\<close> after the module has added its columns.\<close>

record raw_row =
  raw_timestamp :: raw_ts
  raw_Location :: string
  raw_Town :: string
  raw_total_energy_kWh :: rat
  raw_heatpump_pct :: rat

record row =
  timestamp :: timestamp_tz
  hour :: int
  date :: date
  month :: "int \<times> int"
  time :: "int \<times> int \<times> int"
  Location :: string
  Town :: string
  total_energy_kWh :: rat
  heatpump_pct :: rat

text \<open>
  The module-level statements that recompute the time columns and clean the two text
  columns, row by row.
\<close>

definition load_row :: "raw_row \<Rightarrow> row" where
  "load_row r =
     (let ts = to_datetime_utc (raw_timestamp r) in
      \<lparr>timestamp = ts,
       hour = dt_hour ts,
       date = dt_date ts,
       month = to_period_M (tz_localize_None ts),
       time = dt_time ts,
       Location = strip (raw_Location r),
       Town = strip (raw_Town r),
       total_energy_kWh = raw_total_energy_kWh r,
       heatpump_pct = raw_heatpump_pct r\<rparr>)"

definition load :: "raw_row list \<Rightarrow> row list" where
  "load raw = map load_row raw"

subsection \<open>Errors\<close>

text \<open>
  \<open>LocationNotFound\<close> is \<^verbatim>\<open>HTTPException(status_code=404, detail="Location not found")\<close>;
  \<open>ReError\<close> is the \<^verbatim>\<open>re.error\<close> that compiling a malformed pattern raises.
\<close>

datatype error = LocationNotFound | ReError

subsection \<open>Binary64 arithmetic\<close>

text \<open>
  A binary64 value is a finite number, an infinity or NaN. The finite ones are the
  rationals \<open>n * 2 ^ e\<close> with \<open>\<bar>n\<bar> < 2 ^ 53\<close> and \<open>- 1074 \<le> e \<le> 971\<close>.
\<close>

datatype f64 = Finite rat | PlusInf | MinusInf | NaN

text \<open>The nearest integer, ties to the even one (\<^verbatim>\<open>rint\<close>).\<close>

definition rint :: "rat \<Rightarrow> int" where
  "rint x =
     (let f = \<lfloor>x\<rfloor>; d = x - of_int f in
      if d < 1 / 2 then f else if 1 / 2 < d then f + 1 else if even f then f else f + 1)"

definition pow2 :: "int \<Rightarrow> rat" where
  "pow2 e = (if 0 \<le> e then 2 ^ nat e else 1 / 2 ^ nat (- e))"

text \<open>The binary exponent of a positive rational \<open>a\<close>: \<open>2 ^ expo a \<le> a < 2 ^ (expo a + 1)\<close>.\<close>

definition expo :: "rat \<Rightarrow> int" where
  "expo a =
     (case quotient_of a of (p, q) \<Rightarrow>
        let e = bitlen p - bitlen q in if pow2 e \<le> a then e else e - 1)"

text \<open>
  Rounding a real result to binary64: 53 significant bits, or a multiple of
  \<open>2 ^ - 1074\<close> in the subnormal range. The rounded significand \<open>n\<close> is at most
  \<open>2 ^ 53\<close>, so the rounded number reaches \<open>2 ^ 1024\<close>, and is an infinity, when the
  exponent is 1024 or more, or is 1023 and \<open>n\<close> is \<open>2 ^ 53\<close>.
\<close>

definition fl :: "rat \<Rightarrow> f64" where
  "fl x =
     (if x = 0 then Finite 0
      else
        let a = \<bar>x\<bar>;
            e = expo a;
            qe = max (e - 52) (- 1074);
            n = rint (a / pow2 qe)
        in if 1024 \<le> e \<or> (e = 1023 \<and> n = 2 ^ 53) then (if 0 < x then PlusInf else MinusInf)
           else Finite (if 0 < x then of_int n * pow2 qe else - (of_int n * pow2 qe)))"

text \<open>
  Addition of two values, and multiplication and division of a value by a positive
  finite constant (a count, or a power of ten), as IEEE 754 defines them.
\<close>

fun fadd :: "f64 \<Rightarrow> f64 \<Rightarrow> f64" where
  "fadd NaN y = NaN"
| "fadd x NaN = NaN"
| "fadd PlusInf MinusInf = NaN"
| "fadd MinusInf PlusInf = NaN"
| "fadd PlusInf y = PlusInf"
| "fadd x PlusInf = PlusInf"
| "fadd MinusInf y = MinusInf"
| "fadd x MinusInf = MinusInf"
| "fadd (Finite a) (Finite b) = fl (a + b)"

fun fmul :: "f64 \<Rightarrow> rat \<Rightarrow> f64" where
  "fmul (Finite a) c = fl (a * c)"
| "fmul x c = x"

fun fdiv :: "f64 \<Rightarrow> rat \<Rightarrow> f64" where
  "fdiv (Finite a) c = fl (a / c)"
| "fdiv x c = x"

fun frint :: "f64 \<Rightarrow> f64" where
  "frint (Finite a) = Finite (of_int (rint a))"
| "frint x = x"

subsection \<open>Series reductions\<close>

text \<open>
  \<^verbatim>\<open>Series.mean()\<close>: the sum of the values divided by their number, NaN on an empty
  series. \<^verbatim>\<open>Series.max()\<close> and \<^verbatim>\<open>Series.min()\<close> compare and do not round.
\<close>

definition series_mean :: "(rat list \<Rightarrow> f64) \<Rightarrow> rat list \<Rightarrow> f64" where
  "series_mean sum64 xs = (if xs = [] then NaN else fdiv (sum64 xs) (of_nat (length xs)))"

definition series_max :: "rat list \<Rightarrow> f64" where
  "series_max xs = (case xs of [] \<Rightarrow> NaN | x # ys \<Rightarrow> Finite (fold max ys x))"

definition series_min :: "rat list \<Rightarrow> f64" where
  "series_min xs = (case xs of [] \<Rightarrow> NaN | x # ys \<Rightarrow> Finite (fold min ys x))"

text \<open>
  \<^verbatim>\<open>round(x, ndigits)\<close> on a numpy float, for \<^verbatim>\<open>ndigits\<close> \<open>\<ge> 0\<close>: multiply by the power of
  ten, round to the nearest integer with ties to the even one, divide by the power of
  ten; each of the three steps is a binary64 operation.
\<close>

definition py_round :: "f64 \<Rightarrow> nat \<Rightarrow> f64" where
  "py_round x ndigits = fdiv (frint (fmul x (10 ^ ndigits))) (10 ^ ndigits)"

text \<open>
  One way to sum: from left to right, starting from zero. It stands in for the
  parameter \<open>sum64\<close> where an example is evaluated.
\<close>

definition sequential_sum :: "rat list \<Rightarrow> f64" where
  "sequential_sum xs = foldl (\<lambda>s x. fadd s (Finite x)) (Finite 0) xs"

subsection \<open>Grouping\<close>

text \<open>
  \<^verbatim>\<open>groupby(keys)\<close> with its defaults (\<^verbatim>\<open>sort=True\<close>): the groups in ascending order of
  their key, each holding its rows in frame order. The groups are built row by row.
\<close>

fun add_to_group :: "'k::linorder \<Rightarrow> 'r \<Rightarrow> ('k \<times> 'r list) list \<Rightarrow> ('k \<times> 'r list) list" where
  "add_to_group k r [] = [(k, [r])]"
| "add_to_group k r ((k', g) # gs) =
     (if k < k' then (k, [r]) # (k', g) # gs
      else if k = k' then (k', g @ [r]) # gs
      else (k', g) # add_to_group k r gs)"

definition groupby :: "('r \<Rightarrow> 'k::linorder) \<Rightarrow> 'r list \<Rightarrow> ('k \<times> 'r list) list" where
  "groupby key rows = foldl (\<lambda>gs r. add_to_group (key r) r gs) [] rows"

text \<open>\<^verbatim>\<open>groupby(keys)['heatpump_pct'].mean().reset_index()\<close>: one record per group.\<close>

definition groupby_mean ::
  "(rat list \<Rightarrow> f64) \<Rightarrow> (row \<Rightarrow> 'k::linorder) \<Rightarrow> row list \<Rightarrow> ('k \<times> f64) list" where
  "groupby_mean sum64 key rows =
     map (\<lambda>(k, g). (k, series_mean sum64 (map heatpump_pct g))) (groupby key rows)"

subsection \<open>\<^verbatim>\<open>GET /heatpump/share\<close>\<close>

datatype resolution = Hourly | Daily | Monthly

text \<open>
  The records of the response: \<^verbatim>\<open>date\<close>, \<^verbatim>\<open>hour\<close> and the mean for \<^verbatim>\<open>hourly\<close>, \<^verbatim>\<open>date\<close>
  and the mean for \<^verbatim>\<open>daily\<close>, \<^verbatim>\<open>month\<close> and the mean for \<^verbatim>\<open>monthly\<close>.
\<close>

datatype share =
    HourlyShare "((date \<times> int) \<times> f64) list"
  | DailyShare "(date \<times> f64) list"
  | MonthlyShare "((int \<times> int) \<times> f64) list"

definition get_heatpump_share ::
  "(rat list \<Rightarrow> f64) \<Rightarrow> row list \<Rightarrow> string \<Rightarrow> resolution \<Rightarrow> error + share" where
  "get_heatpump_share sum64 df location resolution =
     (let location_df = filter (\<lambda>r. Location r = location) df in
      if location_df = [] then Inl LocationNotFound
      else if resolution = Hourly then
        Inr (HourlyShare (groupby_mean sum64 (\<lambda>r. (date r, hour r)) location_df))
      else if resolution = Daily then
        Inr (DailyShare (groupby_mean sum64 date location_df))
      else
        Inr (MonthlyShare (groupby_mean sum64 month location_df)))"

subsection \<open>\<^verbatim>\<open>GET /heatpump/summary\<close>\<close>

record summary =
  location :: string
  average_heatpump_pct :: f64
  max_heatpump_pct :: f64
  min_heatpump_pct :: f64
  data_points :: nat

definition get_summary_metrics ::
  "(rat list \<Rightarrow> f64) \<Rightarrow> row list \<Rightarrow> string \<Rightarrow> error + summary" where
  "get_summary_metrics sum64 df loc =
     (let location_df = filter (\<lambda>r. Location r = loc) df in
      if location_df = [] then Inl LocationNotFound
      else
        (let avg_pct = series_mean sum64 (map heatpump_pct location_df);
             max_pct = series_max (map heatpump_pct location_df);
             min_pct = series_min (map heatpump_pct location_df)
         in Inr \<lparr>location = loc,
                 average_heatpump_pct = py_round avg_pct 2,
                 max_heatpump_pct = py_round max_pct 2,
                 min_heatpump_pct = py_round min_pct 2,
                 data_points = length location_df\<rparr>))"

subsection \<open>\<^verbatim>\<open>GET /heatpump/report\<close>\<close>

text \<open>The rows handed to \<^verbatim>\<open>to_csv\<close>; the encoding of the CSV is not modelled.\<close>

definition download_report :: "row list \<Rightarrow> string \<Rightarrow> error + row list" where
  "download_report df loc =
     (let location_df = filter (\<lambda>r. Location r = loc) df in
      if location_df = [] then Inl LocationNotFound else Inr location_df)"

subsection \<open>\<^verbatim>\<open>GET /locations\<close>\<close>

text \<open>
  \<^verbatim>\<open>df['Town'].str.contains(Town, case=False, na=False)\<close> leaves \<^verbatim>\<open>regex\<close> at its
  default \<^verbatim>\<open>True\<close>: pandas compiles \<^verbatim>\<open>Town\<close> with \<^verbatim>\<open>re.compile(Town, re.IGNORECASE)\<close>
  and keeps the rows on whose town \<^verbatim>\<open>search\<close> finds a match.

  The part of the pattern language written out here:
  \<^item> a pattern of ordinary characters and dots: an ordinary character matches itself in
    either case, a dot matches any character but a newline;
  \<^item> a pattern that starts with one of the repetition operators \<^verbatim>\<open>*\<close>, \<^verbatim>\<open>+\<close>, \<^verbatim>\<open>?\<close>:
    \<^verbatim>\<open>re.compile\<close> raises \<^verbatim>\<open>re.error\<close> (nothing to repeat).
  Every other pattern is left to the parameter \<open>re_rest\<close>, which stands for the rest of
  Python's \<^verbatim>\<open>re\<close>; the results below hold for any value of it.
\<close>

definition char_lower :: "char \<Rightarrow> char" where
  "char_lower c =
     (let n = (of_char c :: nat) in if 65 \<le> n \<and> n \<le> 90 then char_of (n + 32) else c)"

definition char_upper :: "char \<Rightarrow> char" where
  "char_upper c =
     (let n = (of_char c :: nat) in if 97 \<le> n \<and> n \<le> 122 then char_of (n - 32) else c)"

definition str_lower :: "string \<Rightarrow> string" where
  "str_lower s = map char_lower s"

definition str_upper :: "string \<Rightarrow> string" where
  "str_upper s = map char_upper s"

text \<open>The characters with a meaning of their own in a pattern; \<open>CHR 0x5C\<close> is the backslash.\<close>

definition re_special :: "char \<Rightarrow> bool" where
  "re_special c = (c \<in> set ''.^$*+?{}[]|()'' \<or> c = CHR 0x5C)"

definition ordinary :: "char \<Rightarrow> bool" where
  "ordinary c = (\<not> re_special c \<and> (of_char c :: nat) < 128)"

datatype atom = Lit char | Dot

fun parse_simple :: "string \<Rightarrow> atom list option" where
  "parse_simple [] = Some []"
| "parse_simple (c # cs) =
     (if c = CHR ''.'' then map_option ((#) Dot) (parse_simple cs)
      else if ordinary c then map_option ((#) (Lit c)) (parse_simple cs)
      else None)"

fun atom_matches :: "atom \<Rightarrow> char \<Rightarrow> bool" where
  "atom_matches (Lit c) d = (char_lower c = char_lower d)"
| "atom_matches Dot d = (d \<noteq> CHR 0x0A)"

fun match_here :: "atom list \<Rightarrow> string \<Rightarrow> bool" where
  "match_here [] s = True"
| "match_here (a # as) [] = False"
| "match_here (a # as) (d # ds) = (atom_matches a d \<and> match_here as ds)"

fun search :: "atom list \<Rightarrow> string \<Rightarrow> bool" where
  "search p [] = match_here p []"
| "search p (d # ds) = (match_here p (d # ds) \<or> search p ds)"

definition re_compile :: "(string \<Rightarrow> error + (string \<Rightarrow> bool)) \<Rightarrow> string \<Rightarrow> error + (string \<Rightarrow> bool)" where
  "re_compile re_rest pat =
     (case pat of
        [] \<Rightarrow> Inr (search [])
      | c # cs \<Rightarrow>
          if c \<in> set ''*+?'' then Inl ReError
          else (case parse_simple pat of Some p \<Rightarrow> Inr (search p) | None \<Rightarrow> re_rest pat))"

text \<open>\<^verbatim>\<open>drop_duplicates()\<close> keeps the first of equal rows, in frame order.\<close>

fun drop_duplicates :: "'a list \<Rightarrow> 'a list" where
  "drop_duplicates [] = []"
| "drop_duplicates (x # xs) = x # drop_duplicates (filter (\<lambda>y. y \<noteq> x) xs)"

text \<open>
  \<^verbatim>\<open>sort_values('Location')\<close>: ascending by the first component, strings compared
  character by character. Rows with the same \<^verbatim>\<open>Location\<close> keep their frame order here;
  pandas sorts with numpy's quicksort, which fixes no order among them, and nothing
  below depends on that order.
\<close>

definition sort_values_Location :: "(string \<times> string) list \<Rightarrow> (string \<times> string) list" where
  "sort_values_Location locs = sort_key fst locs"

text \<open>
  The query parameter \<^verbatim>\<open>Town\<close> is \<open>None\<close> when absent; \<^verbatim>\<open>if Town:\<close> is false for \<open>None\<close>
  and for the empty string.
\<close>

definition list_locations ::
  "(string \<Rightarrow> error + (string \<Rightarrow> bool)) \<Rightarrow> row list \<Rightarrow> string option \<Rightarrow> error + (string \<times> string) list" where
  "list_locations re_rest df Town_param =
     (case (case Town_param of
              None \<Rightarrow> Inr df
            | Some t \<Rightarrow>
                if t = [] then Inr df
                else (case re_compile re_rest t of
                        Inl e \<Rightarrow> Inl e
                      | Inr contains \<Rightarrow> Inr (filter (\<lambda>r. contains (Town r)) df))) of
        Inl e \<Rightarrow> Inl e
      | Inr filtered_df \<Rightarrow>
          Inr (sort_values_Location
                 (drop_duplicates (map (\<lambda>r. (Location r, Town r)) filtered_df))))"

subsection \<open>Specification predicates\<close>

text \<open>A date of the calendar, and a timestamp written in UTC with fields in range.\<close>

definition valid_date :: "date \<Rightarrow> bool" where
  "valid_date ymd =
     (case ymd of (y, m, d) \<Rightarrow> 1 \<le> m \<and> m \<le> 12 \<and> 1 \<le> d \<and> d \<le> days_in_month y m)"

definition written_in_utc :: "raw_ts \<Rightarrow> bool" where
  "written_in_utc t =
     (valid_date (ts_year t, ts_month t, ts_day t) \<and>
      0 \<le> ts_hour t \<and> ts_hour t < 24 \<and> 0 \<le> ts_minute t \<and> ts_minute t < 60 \<and>
      0 \<le> ts_second t \<and> ts_second t < 60 \<and> ts_utcoffset t = 0)"

text \<open>
  The calendar date in UTC of a timestamp written with an offset, stated on the written
  fields alone. A written timestamp is well formed when its date is a date of the
  calendar, its time of day is in range and its offset is less than a day, as
  \<^verbatim>\<open>datetime.timezone\<close> requires. The time of day less the offset then falls on the
  written day, on the day before it or on the day after it.
\<close>

definition prev_day :: "date \<Rightarrow> date" where
  "prev_day ymd =
     (case ymd of (y, m, d) \<Rightarrow>
        if 1 < d then (y, m, d - 1)
        else if 1 < m then (y, m - 1, days_in_month y (m - 1))
        else (y - 1, 12, 31))"

definition next_day :: "date \<Rightarrow> date" where
  "next_day ymd =
     (case ymd of (y, m, d) \<Rightarrow>
        if d < days_in_month y m then (y, m, d + 1)
        else if m < 12 then (y, m + 1, 1)
        else (y + 1, 1, 1))"

definition well_formed :: "raw_ts \<Rightarrow> bool" where
  "well_formed t =
     (valid_date (ts_year t, ts_month t, ts_day t) \<and>
      0 \<le> ts_hour t \<and> ts_hour t < 24 \<and> 0 \<le> ts_minute t \<and> ts_minute t < 60 \<and>
      0 \<le> ts_second t \<and> ts_second t < 60 \<and>
      - 1440 < ts_utcoffset t \<and> ts_utcoffset t < 1440)"

definition utc_date :: "raw_ts \<Rightarrow> date" where
  "utc_date t =
     (let s = ts_hour t * 3600 + ts_minute t * 60 + ts_second t - ts_utcoffset t * 60;
          written = (ts_year t, ts_month t, ts_day t)
      in if s < 0 then prev_day written
         else if 86400 \<le> s then next_day written
         else written)"

definition year_month :: "date \<Rightarrow> int \<times> int" where
  "year_month ymd = (case ymd of (y, m, d) \<Rightarrow> (y, m))"

text \<open>
  The records of a location, as the four endpoints select them with
  \<^verbatim>\<open>df[df['Location'] == location]\<close>: exact equality of strings, frame order kept.
\<close>

definition filter_by_location :: "row list \<Rightarrow> string \<Rightarrow> row list" where
  "filter_by_location df loc = filter (\<lambda>r. Location r = loc) df"

text \<open>
  The groups of a frame under a key, as a specification: ascending keys, and the group of
  a key holds exactly the rows with that key, in frame order.
\<close>

definition groups_of :: "('r \<Rightarrow> 'k::linorder) \<Rightarrow> 'r list \<Rightarrow> ('k \<times> 'r list) list \<Rightarrow> bool" where
  "groups_of key rows gs \<longleftrightarrow>
     sorted_wrt (<) (map fst gs) \<and>
     map_of gs = (\<lambda>k. if k \<in> key ` set rows then Some (filter (\<lambda>r. key r = k) rows) else None)"



text \<open>The keys of a response are strictly ascending.\<close>

fun strictly_ascending :: "share \<Rightarrow> bool" where
  "strictly_ascending (HourlyShare out) = sorted_wrt (<) (map fst out)"
| "strictly_ascending (DailyShare out) = sorted_wrt (<) (map fst out)"
| "strictly_ascending (MonthlyShare out) = sorted_wrt (<) (map fst out)"

fun no_duplicate_keys :: "share \<Rightarrow> bool" where
  "no_duplicate_keys (HourlyShare out) = distinct (map fst out)"
| "no_duplicate_keys (DailyShare out) = distinct (map fst out)"
| "no_duplicate_keys (MonthlyShare out) = distinct (map fst out)"

text \<open>The town contains the filter as a substring, ignoring case.\<close>

definition contains_ignoring_case :: "string \<Rightarrow> string \<Rightarrow> bool" where
  "contains_ignoring_case town flt = sublist (str_lower flt) (str_lower town)"

subsection \<open>A small data set\<close>

definition mk_ts :: "int \<Rightarrow> int \<Rightarrow> int \<Rightarrow> int \<Rightarrow> int \<Rightarrow> int \<Rightarrow> raw_ts" where
  "mk_ts y m d hh mm off =
     \<lparr>ts_year = y, ts_month = m, ts_day = d, ts_hour = hh, ts_minute = mm, ts_second = 0,
      ts_utcoffset = off\<rparr>"

definition example_raw :: "raw_row list" where
  "example_raw =
     [\<lparr>raw_timestamp = mk_ts 2023 1 31 23 30 60, raw_Location = '' A '', raw_Town = ''Oslo'',
       raw_total_energy_kWh = 5, raw_heatpump_pct = 10\<rparr>,
      \<lparr>raw_timestamp = mk_ts 2023 2 1 0 10 0, raw_Location = ''B'', raw_Town = ''Bergen'',
       raw_total_energy_kWh = 4, raw_heatpump_pct = 150\<rparr>,
      \<lparr>raw_timestamp = mk_ts 2023 1 31 10 0 0, raw_Location = ''A'', raw_Town = ''Oslo '',
       raw_total_energy_kWh = 7, raw_heatpump_pct = 20\<rparr>,
      \<lparr>raw_timestamp = mk_ts 2023 3 5 12 0 0, raw_Location = ''B'', raw_Town = ''Bergen'',
       raw_total_energy_kWh = 3, raw_heatpump_pct = - 20\<rparr>,
      \<lparr>raw_timestamp = mk_ts 2023 1 31 22 45 0, raw_Location = ''A'', raw_Town = ''Oslo'',
       raw_total_energy_kWh = 6, raw_heatpump_pct = 30\<rparr>]"

definition example_df :: "row list" where
  "example_df = load example_raw"


definition cents_df :: "row list" where
  "cents_df =
     load
       [\<lparr>raw_timestamp = mk_ts 2023 1 31 8 0 0, raw_Location = ''R'', raw_Town = ''Oslo'',
         raw_total_energy_kWh = 5,
         raw_heatpump_pct = 3011782250804019 / 1125899906842624\<rparr>]"

section \<open>Properties\<close>

subsection \<open>The calendar\<close>

text \<open>
  The walk from a day number to its date and the sum from a date to its day number are
  inverse to each other on the dates of the calendar, and later days have later dates.
\<close>

declare year_of.simps [simp del]
declare month_of.simps [simp del]

lemma div_step:
  fixes k y :: int
  assumes "0 < k"
  shows "y div k = (y - 1) div k + (if y mod k = 0 then 1 else 0)"
proof (cases "y mod k = 0")
  case True
  have "y - 1 = k * (y div k - 1) + (k - 1)"
    using True mult_div_mod_eq[of k y] by (simp add: algebra_simps)
  from int_div_pos_eq[OF this] assms have "(y - 1) div k = y div k - 1" by simp
  with True show ?thesis by simp
next
  case False
  have r: "0 \<le> y mod k" "y mod k < k" using assms by simp_all
  have "y - 1 = k * (y div k) + (y mod k - 1)"
    using mult_div_mod_eq[of k y] by simp
  from int_div_pos_eq[OF this] r False have "(y - 1) div k = y div k" by simp
  with False show ?thesis by simp
qed

lemma mod_400_100: "(y::int) mod 400 = 0 \<Longrightarrow> y mod 100 = 0"
proof -
  assume "y mod 400 = 0"
  then have "(400::int) dvd y" by (simp add: dvd_eq_mod_eq_0)
  moreover have "(100::int) dvd 400" by simp
  ultimately have "(100::int) dvd y" using dvd_trans by blast
  then show ?thesis by (simp add: dvd_eq_mod_eq_0)
qed

lemma mod_100_4: "(y::int) mod 100 = 0 \<Longrightarrow> y mod 4 = 0"
proof -
  assume "y mod 100 = 0"
  then have "(100::int) dvd y" by (simp add: dvd_eq_mod_eq_0)
  moreover have "(4::int) dvd 100" by simp
  ultimately have "(4::int) dvd y" using dvd_trans by blast
  then show ?thesis by (simp add: dvd_eq_mod_eq_0)
qed

lemma days_before_year_Suc: "days_before_year (y + 1) = days_before_year y + days_in_year y"
proof -
  define a :: int where "a = (if y mod 4 = 0 then 1 else 0)"
  define b :: int where "b = (if y mod 100 = 0 then 1 else 0)"
  define c :: int where "c = (if y mod 400 = 0 then 1 else 0)"
  have d: "y div 4 = (y - 1) div 4 + a" "y div 100 = (y - 1) div 100 + b"
    "y div 400 = (y - 1) div 400 + c"
    unfolding a_def b_def c_def by (rule div_step, simp)+
  have "days_before_year (y + 1) = days_before_year y + (365 + a - b + c)"
    unfolding days_before_year_def using d by simp
  moreover have "days_in_year y = 365 + a - b + c"
    using mod_400_100[of y] mod_100_4[of y]
    by (cases "y mod 4 = 0"; cases "y mod 100 = 0"; cases "y mod 400 = 0")
      (simp_all add: days_in_year_def is_leap_def a_def b_def c_def)
  ultimately show ?thesis by simp
qed

lemma days_before_year_1970: "days_before_year 1970 = 0"
  by (simp add: days_before_year_def)

lemma days_in_year_pos: "0 < days_in_year y"
  by (simp add: days_in_year_def)

lemma days_before_year_mono: "a \<le> b \<Longrightarrow> days_before_year a \<le> days_before_year b"
proof (induction b rule: int_ge_induct)
  case base
  show ?case by simp
next
  case (step i)
  then show ?case
    using days_before_year_Suc[of i] days_in_year_pos[of i] by simp
qed

lemma year_of_char:
  "year_of y0 n = (y, r) \<Longrightarrow>
     n = days_before_year y - days_before_year y0 + r \<and> 0 \<le> r \<and> r < days_in_year y"
proof (induction y0 n arbitrary: y r rule: year_of.induct)
  case (1 y0 n)
  show ?case
  proof (cases "n < 0")
    case True
    then have "year_of (y0 - 1) (n + days_in_year (y0 - 1)) = (y, r)"
      using "1.prems" by (subst (asm) year_of.simps) simp
    from "1.IH"(1)[OF True this] show ?thesis
      using days_before_year_Suc[of "y0 - 1"] by simp
  next
    case False
    show ?thesis
    proof (cases "days_in_year y0 \<le> n")
      case True
      then have "year_of (y0 + 1) (n - days_in_year y0) = (y, r)"
        using "1.prems" False by (subst (asm) year_of.simps) simp
      from "1.IH"(2)[OF False True this] show ?thesis
        using days_before_year_Suc[of y0] by simp
    next
      case stop: False
      then have "(y, r) = (y0, n)"
        using "1.prems" \<open>\<not> n < 0\<close> by (subst (asm) year_of.simps) simp
      then show ?thesis using stop \<open>\<not> n < 0\<close> by simp
    qed
  qed
qed

lemma year_unique:
  assumes "days_before_year a + r = days_before_year b + s"
    and "0 \<le> r" "r < days_in_year a" "0 \<le> s" "s < days_in_year b"
  shows "a = b \<and> r = s"
proof -
  have "\<not> a < b"
  proof
    assume "a < b"
    then have "days_before_year (a + 1) \<le> days_before_year b"
      by (intro days_before_year_mono) simp
    then show False using assms days_before_year_Suc[of a] by simp
  qed
  moreover have "\<not> b < a"
  proof
    assume "b < a"
    then have "days_before_year (b + 1) \<le> days_before_year a"
      by (intro days_before_year_mono) simp
    then show False using assms days_before_year_Suc[of b] by simp
  qed
  ultimately have "a = b" by simp
  then show ?thesis using assms(1) by simp
qed

lemma year_of_mono:
  assumes "n1 < n2" "year_of y0 n1 = (y1, r1)" "year_of y0 n2 = (y2, r2)"
  shows "y1 < y2 \<or> y1 = y2 \<and> r1 < r2"
proof -
  note c1 = year_of_char[OF assms(2)] and c2 = year_of_char[OF assms(3)]
  have "\<not> y2 < y1"
  proof
    assume "y2 < y1"
    then have "days_before_year (y2 + 1) \<le> days_before_year y1"
      by (intro days_before_year_mono) simp
    then show False using c1 c2 assms(1) days_before_year_Suc[of y2] by simp
  qed
  then show ?thesis using c1 c2 assms(1) by (cases "y1 = y2") auto
qed

lemma days_in_month_pos: "0 < days_in_month y m"
  by (simp add: days_in_month_def)

lemma days_before_month_1: "days_before_month y 1 = 0"
  by (simp add: days_before_month_def)

lemma days_before_month_Suc:
  "1 \<le> m \<Longrightarrow> days_before_month y (m + 1) = days_before_month y m + days_in_month y m"
  by (simp add: days_before_month_def upto_rec2)

lemma days_before_month_mono:
  assumes "a \<le> b" and "1 \<le> a"
  shows "days_before_month y a \<le> days_before_month y b"
  using assms
proof (induction b rule: int_ge_induct)
  case base
  show ?case by simp
next
  case (step i)
  then show ?case
    using days_before_month_Suc[of i y] days_in_month_pos[of y i] by simp
qed

lemma days_before_month_13: "days_before_month y 13 = days_in_year y"
proof -
  have "[1..12::int] = [1, 2, 3, 4, 5, 6, 7, 8, 9, 10, 11, 12]"
    by (simp add: upto_rec1)
  then show ?thesis
    by (simp add: days_before_month_def days_in_month_def days_in_year_def)
qed

lemma month_of_char:
  "1 \<le> m0 \<Longrightarrow> month_of y m0 n = (m, r) \<Longrightarrow>
     m0 \<le> m \<and> (m0 \<le> 12 \<longrightarrow> m \<le> 12) \<and>
     n = days_before_month y m - days_before_month y m0 + r \<and>
     (m < 12 \<longrightarrow> r < days_in_month y m) \<and> (0 \<le> n \<longrightarrow> 0 \<le> r)"
proof (induction y m0 n arbitrary: m r rule: month_of.induct)
  case (1 y m0 n)
  show ?case
  proof (cases "m0 < 12 \<and> days_in_month y m0 \<le> n")
    case True
    then have "month_of y (m0 + 1) (n - days_in_month y m0) = (m, r)"
      using "1.prems"(2) by (subst (asm) month_of.simps) simp
    from "1.IH"[OF True _ this] "1.prems"(1) True show ?thesis
      using days_before_month_Suc[of m0 y] by auto
  next
    case False
    then have "(m, r) = (m0, n)"
      using "1.prems"(2) by (subst (asm) month_of.simps) (auto split: if_splits)
    then show ?thesis using False by auto
  qed
qed

lemma month_unique:
  assumes "days_before_month y a + r = days_before_month y b + s"
    and "1 \<le> a" "1 \<le> b" "0 \<le> r" "r < days_in_month y a" "0 \<le> s" "s < days_in_month y b"
  shows "a = b \<and> r = s"
proof -
  have "\<not> a < b"
  proof
    assume "a < b"
    then have "days_before_month y (a + 1) \<le> days_before_month y b"
      using assms(2) by (intro days_before_month_mono) simp_all
    then show False using assms days_before_month_Suc[of a y] by simp
  qed
  moreover have "\<not> b < a"
  proof
    assume "b < a"
    then have "days_before_month y (b + 1) \<le> days_before_month y a"
      using assms(3) by (intro days_before_month_mono) simp_all
    then show False using assms days_before_month_Suc[of b y] by simp
  qed
  ultimately have "a = b" by simp
  then show ?thesis using assms(1) by simp
qed

lemma civil_from_days_char:
  assumes "civil_from_days n = (y, m, d)"
  shows "valid_date (y, m, d) \<and> days_from_civil y m d = n"
proof -
  obtain y' doy where yo: "year_of 1970 n = (y', doy)" by (cases "year_of 1970 n")
  obtain m' r where mo: "month_of y' 1 doy = (m', r)" by (cases "month_of y' 1 doy")
  from assms have e: "y = y'" "m = m'" "d = r + 1"
    by (simp_all add: civil_from_days_def yo mo)
  note cy = year_of_char[OF yo]
  have cm: "1 \<le> m'" "m' \<le> 12" "doy = days_before_month y' m' + r"
    "m' < 12 \<longrightarrow> r < days_in_month y' m'" "0 \<le> r"
    using month_of_char[OF _ mo] cy by (simp_all add: days_before_month_1)
  have "r < days_in_month y' m'"
  proof (cases "m' < 12")
    case True
    with cm show ?thesis by simp
  next
    case False
    with cm have m12: "m' = 12" by simp
    have "days_before_month y' 12 + days_in_month y' 12 = days_in_year y'"
      using days_before_month_Suc[of 12 y'] days_before_month_13[of y'] by simp
    then show ?thesis using cy cm(3) m12 by simp
  qed
  then show ?thesis
    using cy cm e by (simp add: valid_date_def days_from_civil_def days_before_year_1970)
qed

lemma days_from_civil_inverse:
  assumes "valid_date (y, m, d)"
  shows "civil_from_days (days_from_civil y m d) = (y, m, d)"
proof -
  obtain y' m' d' where c: "civil_from_days (days_from_civil y m d) = (y', m', d')"
    by (cases "civil_from_days (days_from_civil y m d)")
  from civil_from_days_char[OF c]
  have v: "valid_date (y', m', d')" and e: "days_from_civil y' m' d' = days_from_civil y m d"
    by simp_all
  have rng: "0 \<le> days_before_month yy mm + dd - 1 \<and>
      days_before_month yy mm + dd - 1 < days_in_year yy" if "valid_date (yy, mm, dd)" for yy mm dd
  proof -
    from that have a: "1 \<le> mm" "mm \<le> 12" "1 \<le> dd" "dd \<le> days_in_month yy mm"
      by (simp_all add: valid_date_def)
    have "days_before_month yy 1 \<le> days_before_month yy mm"
      using a by (intro days_before_month_mono) simp_all
    moreover have "days_before_month yy (mm + 1) \<le> days_before_month yy 13"
      using a by (intro days_before_month_mono) simp_all
    ultimately show ?thesis
      using a days_before_month_Suc[of mm yy] days_before_month_13[of yy]
      by (simp add: days_before_month_1)
  qed
  have "y' = y \<and> days_before_month y' m' + d' - 1 = days_before_month y m + d - 1"
    using e rng[OF v] rng[OF assms]
    by (intro year_unique) (simp_all add: days_from_civil_def)
  then have y: "y' = y" and "days_before_month y m' + (d' - 1) = days_before_month y m + (d - 1)"
    by auto
  then have "m' = m \<and> d' - 1 = d - 1"
    using v assms by (intro month_unique) (auto simp: valid_date_def)
  with y c show ?thesis by simp
qed

lemma civil_from_days_strict_mono:
  assumes "n1 < n2"
  shows "civil_from_days n1 < civil_from_days n2"
proof -
  obtain y1 m1 d1 where c1: "civil_from_days n1 = (y1, m1, d1)" by (cases "civil_from_days n1")
  obtain y2 m2 d2 where c2: "civil_from_days n2 = (y2, m2, d2)" by (cases "civil_from_days n2")
  note k1 = civil_from_days_char[OF c1] and k2 = civil_from_days_char[OF c2]
  have v1: "1 \<le> m1" "m1 \<le> 12" "1 \<le> d1" "d1 \<le> days_in_month y1 m1"
    and v2: "1 \<le> m2" "m2 \<le> 12" "1 \<le> d2" "d2 \<le> days_in_month y2 m2"
    using k1 k2 by (simp_all add: valid_date_def)
  have n: "days_before_year y1 + days_before_month y1 m1 + d1 <
           days_before_year y2 + days_before_month y2 m2 + d2"
    using k1 k2 assms by (simp add: days_from_civil_def)
  have b1: "days_before_month y1 m1 + d1 \<le> days_in_year y1"
  proof -
    have "days_before_month y1 (m1 + 1) \<le> days_before_month y1 13"
      using v1 by (intro days_before_month_mono) simp_all
    then show ?thesis using v1 days_before_month_Suc[of m1 y1] days_before_month_13[of y1] by simp
  qed
  have b2: "0 \<le> days_before_month y2 m2"
    using days_before_month_mono[of 1 m2 y2] v2 by (simp add: days_before_month_1)
  have "\<not> y2 < y1"
  proof
    assume "y2 < y1"
    then have "days_before_year (y2 + 1) \<le> days_before_year y1"
      by (intro days_before_year_mono) simp
    moreover have "days_before_month y2 m2 + d2 \<le> days_in_year y2"
    proof -
      have "days_before_month y2 (m2 + 1) \<le> days_before_month y2 13"
        using v2 by (intro days_before_month_mono) simp_all
      then show ?thesis
        using v2 days_before_month_Suc[of m2 y2] days_before_month_13[of y2] by simp
    qed
    moreover have "0 \<le> days_before_month y1 m1"
      using days_before_month_mono[of 1 m1 y1] v1 by (simp add: days_before_month_1)
    ultimately show False using n v1 days_before_year_Suc[of y2] by simp
  qed
  moreover have "(m1, d1) < (m2, d2)" if "y1 = y2"
  proof -
    have "\<not> m2 < m1"
    proof
      assume "m2 < m1"
      then have "days_before_month y2 (m2 + 1) \<le> days_before_month y2 m1"
        using v2 by (intro days_before_month_mono) simp_all
      then show False using n that v1 v2 days_before_month_Suc[of m2 y2] by simp
    qed
    then show ?thesis using n that by (cases "m1 = m2") auto
  qed
  ultimately show ?thesis unfolding c1 c2 by (cases "y1 = y2") auto
qed

subsection \<open>Bucket keys follow time\<close>

lemma seconds_split:
  fixes a b :: int
  assumes "a div 86400 = b div 86400" "a \<le> b"
  shows "(a mod 86400) div 3600 \<le> (b mod 86400) div 3600"
proof -
  have "a mod 86400 \<le> b mod 86400"
    using assms mult_div_mod_eq[of 86400 a] mult_div_mod_eq[of 86400 b] by linarith
  then show ?thesis by (rule zdiv_mono1) simp
qed

lemma hour_bucket_mono:
  fixes a b :: int
  assumes "a \<le> b"
  shows "(civil_from_days (a div 86400), (a mod 86400) div 3600)
       \<le> (civil_from_days (b div 86400), (b mod 86400) div 3600)"
proof (cases "a div 86400 = b div 86400")
  case True
  with seconds_split[OF True assms] show ?thesis by simp
next
  case False
  moreover have "a div 86400 \<le> b div 86400" using assms by (rule zdiv_mono1) simp
  ultimately have "a div 86400 < b div 86400" by simp
  from civil_from_days_strict_mono[OF this] show ?thesis by simp
qed

lemma date_bucket_mono:
  fixes a b :: int
  assumes "a \<le> b"
  shows "civil_from_days (a div 86400) \<le> civil_from_days (b div 86400)"
proof (cases "a div 86400 = b div 86400")
  case True
  then show ?thesis by simp
next
  case False
  moreover have "a div 86400 \<le> b div 86400" using assms by (rule zdiv_mono1) simp
  ultimately have "a div 86400 < b div 86400" by simp
  from civil_from_days_strict_mono[OF this] show ?thesis by simp
qed

lemma month_bucket_mono:
  fixes a b :: int
  assumes "a \<le> b"
  shows "to_period_M a \<le> to_period_M b"
proof -
  obtain y1 m1 d1 where c1: "civil_from_days (a div 86400) = (y1, m1, d1)"
    by (cases "civil_from_days (a div 86400)")
  obtain y2 m2 d2 where c2: "civil_from_days (b div 86400) = (y2, m2, d2)"
    by (cases "civil_from_days (b div 86400)")
  from date_bucket_mono[OF assms] have "(y1, m1, d1) \<le> (y2, m2, d2)" by (simp add: c1 c2)
  then show ?thesis by (auto simp: to_period_M_def c1 c2)
qed

lemma load_row_buckets:
  "hour (load_row r) = (instant (timestamp (load_row r)) mod 86400) div 3600"
  "date (load_row r) = civil_from_days (instant (timestamp (load_row r)) div 86400)"
  "month (load_row r) = to_period_M (instant (timestamp (load_row r)))"
  by (simp_all add: load_row_def Let_def dt_hour_def dt_date_def tz_localize_None_def wall_def
      to_datetime_utc_def)

lemma bucket_order_chronological:
  assumes "r1 \<in> set (load raw)" "r2 \<in> set (load raw)"
  shows "((date r1, hour r1) < (date r2, hour r2) \<longrightarrow>
            instant (timestamp r1) < instant (timestamp r2)) \<and>
         (date r1 < date r2 \<longrightarrow> instant (timestamp r1) < instant (timestamp r2)) \<and>
         (month r1 < month r2 \<longrightarrow> instant (timestamp r1) < instant (timestamp r2))"
proof -
  from assms obtain a b where r: "r1 = load_row a" "r2 = load_row b"
    by (auto simp: load_def)
  let ?i1 = "instant (timestamp r1)" and ?i2 = "instant (timestamp r2)"
  have h: "(date r2, hour r2) \<le> (date r1, hour r1)" if "?i2 \<le> ?i1"
    using hour_bucket_mono[OF that] unfolding r load_row_buckets[symmetric] .
  have d: "date r2 \<le> date r1" if "?i2 \<le> ?i1"
    using date_bucket_mono[OF that] unfolding r load_row_buckets[symmetric] .
  have m: "month r2 \<le> month r1" if "?i2 \<le> ?i1"
    using month_bucket_mono[OF that] unfolding r load_row_buckets[symmetric] .
  show ?thesis using h d m by (meson not_le)
qed

lemma written_in_utc_buckets:
  assumes "written_in_utc (raw_timestamp r)"
  shows "date (load_row r) =
           (ts_year (raw_timestamp r), ts_month (raw_timestamp r), ts_day (raw_timestamp r))"
    and "month (load_row r) = (ts_year (raw_timestamp r), ts_month (raw_timestamp r))"
    and "hour (load_row r) = ts_hour (raw_timestamp r)"
proof -
  let ?t = "raw_timestamp r"
  let ?s = "ts_hour ?t * 3600 + ts_minute ?t * 60 + ts_second ?t"
  let ?n = "days_from_civil (ts_year ?t) (ts_month ?t) (ts_day ?t)"
  from assms have v: "valid_date (ts_year ?t, ts_month ?t, ts_day ?t)"
    and b: "0 \<le> ts_hour ?t" "ts_hour ?t < 24" "0 \<le> ts_minute ?t" "ts_minute ?t < 60"
      "0 \<le> ts_second ?t" "ts_second ?t < 60"
    and z: "ts_utcoffset ?t = 0"
    by (simp_all add: written_in_utc_def)
  have i: "instant (timestamp (load_row r)) = 86400 * ?n + ?s"
    by (simp add: load_row_def Let_def to_datetime_utc_def z)
  have s: "0 \<le> ?s" "?s < 86400" using b by simp_all
  have dv: "(86400 * ?n + ?s) div 86400 = ?n"
    by (rule int_div_pos_eq[of _ _ _ ?s]) (use s in simp_all)
  have md: "(86400 * ?n + ?s) mod 86400 = ?s"
    by (rule int_mod_pos_eq[of _ _ ?n]) (use s in simp_all)
  have hs: "?s div 3600 = ts_hour ?t"
    by (rule int_div_pos_eq[of _ _ _ "ts_minute ?t * 60 + ts_second ?t"]) (use b in simp_all)
  show d: "date (load_row r) = (ts_year ?t, ts_month ?t, ts_day ?t)"
    unfolding load_row_buckets i dv using days_from_civil_inverse[OF v] .
  show "month (load_row r) = (ts_year ?t, ts_month ?t)"
    unfolding load_row_buckets(3) i to_period_M_def dv using days_from_civil_inverse[OF v] by simp
  show "hour (load_row r) = ts_hour ?t"
    unfolding load_row_buckets(1) i md hs ..
qed

lemma prev_day_char:
  assumes "valid_date (y, m, d)"
  shows "valid_date (prev_day (y, m, d))"
    and "(case prev_day (y, m, d) of (a, b, c) \<Rightarrow> days_from_civil a b c) = days_from_civil y m d - 1"
proof -
  from assms have v: "1 \<le> m" "m \<le> 12" "1 \<le> d" "d \<le> days_in_month y m"
    by (simp_all add: valid_date_def)
  have dec: "days_before_month (y - 1) 12 + 31 = days_in_year (y - 1)"
    using days_before_month_Suc[of 12 "y - 1"] days_before_month_13[of "y - 1"]
    by (simp add: days_in_month_def)
  have yr: "days_before_year y = days_before_year (y - 1) + days_in_year (y - 1)"
    using days_before_year_Suc[of "y - 1"] by simp
  have mo: "days_before_month y m = days_before_month y (m - 1) + days_in_month y (m - 1)" if "1 < m"
    using days_before_month_Suc[of "m - 1" y] that by simp
  show "valid_date (prev_day (y, m, d))"
    using v days_in_month_pos[of y "m - 1"]
    by (auto simp: prev_day_def valid_date_def days_in_month_def)
  show "(case prev_day (y, m, d) of (a, b, c) \<Rightarrow> days_from_civil a b c) = days_from_civil y m d - 1"
  proof (cases "1 < d")
    case True
    then show ?thesis by (simp add: prev_day_def days_from_civil_def)
  next
    case False
    with v have d1: "d = 1" by simp
    show ?thesis
    proof (cases "1 < m")
      case True
      then show ?thesis using mo[OF True] by (simp add: prev_day_def days_from_civil_def d1)
    next
      case False
      with v have m1: "m = 1" by simp
      show ?thesis
        using dec yr by (simp add: prev_day_def days_from_civil_def d1 m1 days_before_month_1)
    qed
  qed
qed

lemma next_day_char:
  assumes "valid_date (y, m, d)"
  shows "valid_date (next_day (y, m, d))"
    and "(case next_day (y, m, d) of (a, b, c) \<Rightarrow> days_from_civil a b c) = days_from_civil y m d + 1"
proof -
  from assms have v: "1 \<le> m" "m \<le> 12" "1 \<le> d" "d \<le> days_in_month y m"
    by (simp_all add: valid_date_def)
  have dec: "days_before_month y 12 + 31 = days_in_year y"
    using days_before_month_Suc[of 12 y] days_before_month_13[of y]
    by (simp add: days_in_month_def)
  have mo: "days_before_month y (m + 1) = days_before_month y m + days_in_month y m"
    using days_before_month_Suc[of m y] v by simp
  show "valid_date (next_day (y, m, d))"
    using v days_in_month_pos[of y "m + 1"] days_in_month_pos[of "y + 1" 1]
    by (auto simp: next_day_def valid_date_def)
  show "(case next_day (y, m, d) of (a, b, c) \<Rightarrow> days_from_civil a b c) = days_from_civil y m d + 1"
  proof (cases "d < days_in_month y m")
    case True
    then show ?thesis by (simp add: next_day_def days_from_civil_def)
  next
    case False
    with v have dl: "d = days_in_month y m" by simp
    show ?thesis
    proof (cases "m < 12")
      case True
      then show ?thesis using mo by (simp add: next_day_def days_from_civil_def dl)
    next
      case False
      with v have m12: "m = 12" by simp
      have "days_in_month y 12 = 31" by (simp add: days_in_month_def)
      then show ?thesis
        using dec days_before_year_Suc[of y]
        by (simp add: next_day_def days_from_civil_def dl m12 days_before_month_1)
    qed
  qed
qed

lemma civil_from_days_prev:
  assumes "valid_date (y, m, d)"
  shows "civil_from_days (days_from_civil y m d - 1) = prev_day (y, m, d)"
proof -
  obtain a b c where p: "prev_day (y, m, d) = (a, b, c)" by (cases "prev_day (y, m, d)")
  from prev_day_char[OF assms] have "valid_date (a, b, c)" "days_from_civil a b c = days_from_civil y m d - 1"
    by (simp_all add: p)
  with days_from_civil_inverse[of a b c] show ?thesis by (simp add: p)
qed

lemma civil_from_days_next:
  assumes "valid_date (y, m, d)"
  shows "civil_from_days (days_from_civil y m d + 1) = next_day (y, m, d)"
proof -
  obtain a b c where p: "next_day (y, m, d) = (a, b, c)" by (cases "next_day (y, m, d)")
  from next_day_char[OF assms] have "valid_date (a, b, c)" "days_from_civil a b c = days_from_civil y m d + 1"
    by (simp_all add: p)
  with days_from_civil_inverse[of a b c] show ?thesis by (simp add: p)
qed

lemma well_formed_buckets:
  assumes "well_formed (raw_timestamp r)"
  shows "date (load_row r) = utc_date (raw_timestamp r)"
    and "month (load_row r) = year_month (utc_date (raw_timestamp r))"
proof -
  let ?t = "raw_timestamp r"
  define s where "s = ts_hour ?t * 3600 + ts_minute ?t * 60 + ts_second ?t - ts_utcoffset ?t * 60"
  define n where "n = days_from_civil (ts_year ?t) (ts_month ?t) (ts_day ?t)"
  from assms have v: "valid_date (ts_year ?t, ts_month ?t, ts_day ?t)"
    and b: "0 \<le> ts_hour ?t" "ts_hour ?t < 24" "0 \<le> ts_minute ?t" "ts_minute ?t < 60"
      "0 \<le> ts_second ?t" "ts_second ?t < 60" "- 1440 < ts_utcoffset ?t" "ts_utcoffset ?t < 1440"
    by (simp_all add: well_formed_def)
  have i: "instant (timestamp (load_row r)) = 86400 * n + s"
    by (simp add: load_row_def Let_def to_datetime_utc_def s_def n_def)
  have rng: "- 86400 < s" "s < 2 * 86400" using b by (simp_all add: s_def)
  have u: "utc_date ?t =
      (if s < 0 then prev_day (ts_year ?t, ts_month ?t, ts_day ?t)
       else if 86400 \<le> s then next_day (ts_year ?t, ts_month ?t, ts_day ?t)
       else (ts_year ?t, ts_month ?t, ts_day ?t))"
    by (simp add: utc_date_def Let_def s_def)
  have d: "civil_from_days ((86400 * n + s) div 86400) = utc_date ?t"
  proof -
    consider "s < 0" | "0 \<le> s" "s < 86400" | "86400 \<le> s" by linarith
    then show ?thesis
    proof cases
      case 1
      have "(86400 * n + s) div 86400 = n - 1"
        by (rule int_div_pos_eq[of _ _ _ "s + 86400"]) (use 1 rng in simp_all)
      then show ?thesis using 1 civil_from_days_prev[OF v] by (simp add: u n_def)
    next
      case 2
      have "(86400 * n + s) div 86400 = n"
        by (rule int_div_pos_eq[of _ _ _ s]) (use 2 in simp_all)
      then show ?thesis using 2 days_from_civil_inverse[OF v] by (simp add: u n_def)
    next
      case 3
      have "(86400 * n + s) div 86400 = n + 1"
        by (rule int_div_pos_eq[of _ _ _ "s - 86400"]) (use 3 rng in simp_all)
      then show ?thesis using 3 civil_from_days_next[OF v] by (simp add: u n_def)
    qed
  qed
  show "date (load_row r) = utc_date ?t"
    unfolding load_row_buckets i using d .
  show "month (load_row r) = year_month (utc_date ?t)"
    unfolding load_row_buckets(3) i to_period_M_def d year_month_def ..
qed

subsection \<open>The example data set, evaluated\<close>

lemma example_df_rows:
  "example_df =
   [\<lparr>timestamp = \<lparr>instant = 1675204200, tz = 0\<rparr>, hour = 22,
     date = (2023, 1, 31), month = (2023, 1), time = (22, 30, 0),
     Location = ''A'', Town = ''Oslo'', total_energy_kWh = 5, heatpump_pct = 10\<rparr>,
    \<lparr>timestamp = \<lparr>instant = 1675210200, tz = 0\<rparr>, hour = 0,
     date = (2023, 2, 1), month = (2023, 2), time = (0, 10, 0),
     Location = ''B'', Town = ''Bergen'', total_energy_kWh = 4, heatpump_pct = 150\<rparr>,
    \<lparr>timestamp = \<lparr>instant = 1675159200, tz = 0\<rparr>, hour = 10,
     date = (2023, 1, 31), month = (2023, 1), time = (10, 0, 0),
     Location = ''A'', Town = ''Oslo'', total_energy_kWh = 7, heatpump_pct = 20\<rparr>,
    \<lparr>timestamp = \<lparr>instant = 1678017600, tz = 0\<rparr>, hour = 12,
     date = (2023, 3, 5), month = (2023, 3), time = (12, 0, 0),
     Location = ''B'', Town = ''Bergen'', total_energy_kWh = 3, heatpump_pct = - 20\<rparr>,
    \<lparr>timestamp = \<lparr>instant = 1675205100, tz = 0\<rparr>, hour = 22,
     date = (2023, 1, 31), month = (2023, 1), time = (22, 45, 0),
     Location = ''A'', Town = ''Oslo'', total_energy_kWh = 6, heatpump_pct = 30\<rparr>]"
  by code_simp

subsection \<open>Grouping: the loop and its invariant\<close>

lemma add_to_group_key_iff:
  "x \<in> fst ` set (add_to_group k r gs) \<longleftrightarrow> x = k \<or> x \<in> fst ` set gs"
proof (induction gs)
  case Nil
  show ?case by simp
next
  case (Cons p gs)
  obtain k' g where p: "p = (k', g)" by (cases p)
  show ?case using Cons.IH by (simp add: p) blast
qed

lemma add_to_group_keys:
  "fst ` set (add_to_group k r gs) = insert k (fst ` set gs)"
  using add_to_group_key_iff[of _ k r gs] by blast

lemma add_to_group_sorted:
  "sorted_wrt (<) (map fst gs) \<Longrightarrow> sorted_wrt (<) (map fst (add_to_group k r gs))"
proof (induction gs)
  case Nil
  then show ?case by simp
next
  case (Cons p gs)
  obtain k' g where p: "p = (k', g)" by (cases p)
  have "\<forall>x \<in> fst ` set (add_to_group k r gs). k' < x" if "k' < k"
    using that Cons.prems by (auto simp: add_to_group_keys p)
  then show ?case using Cons by (auto simp: p)
qed

lemma add_to_group_map_of:
  "sorted_wrt (<) (map fst gs) \<Longrightarrow>
   map_of (add_to_group k r gs) =
     (map_of gs)(k \<mapsto> (case map_of gs k of None \<Rightarrow> [r] | Some g \<Rightarrow> g @ [r]))"
proof (induction gs)
  case Nil
  then show ?case by simp
next
  case (Cons p gs)
  obtain k' g where p: "p = (k', g)" by (cases p)
  show ?case
  proof (cases "k < k'")
    case True
    then have "k \<notin> fst ` set gs" using Cons.prems by (auto simp: p)
    then have "map_of gs k = None" by (simp add: map_of_eq_None_iff)
    with True show ?thesis by (auto simp: p)
  next
    case False
    then show ?thesis using Cons by (auto simp: p)
  qed
qed

lemma add_to_group_sizes:
  "sum_list (map (\<lambda>(k, g). length g) (add_to_group k r gs)) =
   Suc (sum_list (map (\<lambda>(k, g). length g) gs))"
  by (induction gs) auto

lemma add_to_group_mset:
  "mset (concat (map snd (add_to_group k r gs))) = add_mset r (mset (concat (map snd gs)))"
  by (induction gs) auto

lemma groups_of_step:
  assumes "groups_of key rows gs"
  shows "groups_of key (rows @ [r]) (add_to_group (key r) r gs)"
proof -
  have s: "sorted_wrt (<) (map fst gs)"
    and m: "\<And>k. map_of gs k =
      (if k \<in> key ` set rows then Some (filter (\<lambda>r. key r = k) rows) else None)"
    using assms by (simp_all add: groups_of_def)
  have "map_of (add_to_group (key r) r gs) k =
      (if k \<in> key ` set (rows @ [r]) then Some (filter (\<lambda>x. key x = k) (rows @ [r])) else None)"
    for k
  proof (cases "k = key r")
    case True
    show ?thesis
    proof (cases "key r \<in> key ` set rows")
      case True
      with \<open>k = key r\<close> show ?thesis by (simp add: add_to_group_map_of[OF s] m)
    next
      case False
      then have "filter (\<lambda>x. key x = key r) rows = []"
        unfolding filter_empty_conv by (metis imageI)
      with False \<open>k = key r\<close> show ?thesis by (simp add: add_to_group_map_of[OF s] m)
    qed
  next
    case False
    then show ?thesis by (simp add: add_to_group_map_of[OF s] m)
  qed
  then show ?thesis
    unfolding groups_of_def using add_to_group_sorted[OF s] by (simp add: fun_eq_iff)
qed

lemma groups_of_foldl:
  "groups_of key pre gs \<Longrightarrow>
   groups_of key (pre @ rows) (foldl (\<lambda>gs r. add_to_group (key r) r gs) gs rows)"
proof (induction rows arbitrary: pre gs)
  case Nil
  then show ?case by simp
next
  case (Cons r rows)
  from groups_of_step[OF Cons.prems, of r]
  have "groups_of key ((pre @ [r]) @ rows)
          (foldl (\<lambda>gs r. add_to_group (key r) r gs) (add_to_group (key r) r gs) rows)"
    by (rule Cons.IH)
  then show ?case by simp
qed

lemma groups_of_groupby: "groups_of key rows (groupby key rows)"
  using groups_of_foldl[of key "[]" "[]" rows] by (simp add: groupby_def groups_of_def)

lemma groupby_sorted: "sorted_wrt (<) (map fst (groupby key rows))"
  using groups_of_groupby[of key rows] by (simp add: groups_of_def)

lemma groupby_distinct: "distinct (map fst (groupby key rows))"
  using groupby_sorted[of key rows] by (simp add: strict_sorted_iff)



lemma groupby_sizes:
  "sum_list (map (\<lambda>(k, g). length g) (groupby key rows)) = length rows"
proof -
  have "sum_list (map (\<lambda>(k, g). length g) (foldl (\<lambda>gs r. add_to_group (key r) r gs) gs rows)) =
        sum_list (map (\<lambda>(k, g). length g) gs) + length rows" for gs
    by (induction rows arbitrary: gs) (simp_all add: add_to_group_sizes)
  from this[of "[]"] show ?thesis by (simp add: groupby_def)
qed

lemma groupby_mset:
  "mset (concat (map snd (groupby key rows))) = mset rows"
proof -
  have "mset (concat (map snd (foldl (\<lambda>gs r. add_to_group (key r) r gs) gs rows))) =
        mset (concat (map snd gs)) + mset rows" for gs
    by (induction rows arbitrary: gs) (simp_all add: add_to_group_mset)
  from this[of "[]"] show ?thesis by (simp add: groupby_def)
qed

lemma groupby_mean_keys:
  "map fst (groupby_mean sum64 key rows) = map fst (groupby key rows)"
  by (simp add: groupby_mean_def case_prod_unfold comp_def)



subsection \<open>The example frames, evaluated\<close>


lemma cents_df_rows:
  "cents_df =
   [\<lparr>timestamp = \<lparr>instant = 1675152000, tz = 0\<rparr>, hour = 8,
     date = (2023, 1, 31), month = (2023, 1), time = (8, 0, 0),
     Location = ''R'', Town = ''Oslo'', total_energy_kWh = 5,
     heatpump_pct = 3011782250804019 / 1125899906842624\<rparr>]"
  by code_simp

lemma fl_small_numbers:
  "fl 0 = Finite 0" "fl 1 = Finite 1" "fl 3 = Finite 3" "fl 5 = Finite 5"
  "fl 10 = Finite 10" "fl 20 = Finite 20" "fl 30 = Finite 30" "fl 60 = Finite 60"
  "fl 150 = Finite 150" "fl (- 20) = Finite (- 20)" "fl 130 = Finite 130" "fl 65 = Finite 65"
  "fl 1000 = Finite 1000" "fl 2000 = Finite 2000" "fl 3000 = Finite 3000"
  "fl 6500 = Finite 6500" "fl 15000 = Finite 15000" "fl (- 2000) = Finite (- 2000)"
  by code_simp+

subsection \<open>The share endpoint\<close>




lemma groupby_mean_sorted: "sorted_wrt (<) (map fst (groupby_mean sum64 key rows))"
  by (simp add: groupby_mean_keys groupby_sorted)

lemma groupby_mean_distinct: "distinct (map fst (groupby_mean sum64 key rows))"
  by (simp add: groupby_mean_keys groupby_distinct)

text \<open>
  Claim C3. Whatever the frame and the resolution, the pairs that \<^verbatim>\<open>get_heatpump_share\<close>
  returns are strictly ascending in their bucket key and no key occurs twice; the only
  other outcome is \<open>LocationNotFound\<close>, for a location without records. The order of
  the keys is the order of time: in a frame as the module loads it, a record with a
  smaller hourly, daily or monthly key has an earlier instant.
\<close>

theorem get_heatpump_share_strictly_ascending:
  "((\<exists>s. get_heatpump_share sum64 df loc res = Inr s \<and> strictly_ascending s \<and>
         no_duplicate_keys s) \<or>
    (get_heatpump_share sum64 df loc res = Inl LocationNotFound \<and>
     filter_by_location df loc = [])) \<and>
   (\<forall>r1\<in>set (load raw). \<forall>r2\<in>set (load raw).
      ((date r1, hour r1) < (date r2, hour r2) \<longrightarrow>
         instant (timestamp r1) < instant (timestamp r2)) \<and>
      (date r1 < date r2 \<longrightarrow> instant (timestamp r1) < instant (timestamp r2)) \<and>
      (month r1 < month r2 \<longrightarrow> instant (timestamp r1) < instant (timestamp r2)))"
proof -
  have "(\<exists>s. get_heatpump_share sum64 df loc res = Inr s \<and> strictly_ascending s \<and>
         no_duplicate_keys s) \<or>
    (get_heatpump_share sum64 df loc res = Inl LocationNotFound \<and>
     filter_by_location df loc = [])"
    by (cases res)
      (simp_all add: get_heatpump_share_def filter_by_location_def Let_def
        groupby_mean_sorted groupby_mean_distinct)
  then show ?thesis using bucket_order_chronological[of _ raw] by blast
qed

theorem get_heatpump_share_strictly_ascending_witness:
  "get_heatpump_share sequential_sum example_df ''B'' Monthly =
     Inr (MonthlyShare [((2023, 2), Finite 150), ((2023, 3), Finite (- 20))]) \<and>
   strictly_ascending (MonthlyShare [((2023, 2), Finite 150), ((2023, 3), Finite (- 20))]) \<and>
   no_duplicate_keys (MonthlyShare [((2023, 2), Finite 150), ((2023, 3), Finite (- 20))]) \<and>
   month (example_df ! 1) < month (example_df ! 3) \<and>
   instant (timestamp (example_df ! 1)) < instant (timestamp (example_df ! 3))"
proof -
  have v: "get_heatpump_share sequential_sum example_df ''B'' Monthly =
     Inr (MonthlyShare [((2023, 2), Finite 150), ((2023, 3), Finite (- 20))])"
    by (simp add: example_df_rows get_heatpump_share_def groupby_mean_def groupby_def
        series_mean_def sequential_sum_def fl_small_numbers)
  have m: "month (example_df ! 1) < month (example_df ! 3)"
    by (simp add: example_df_rows)
  have i: "example_df ! 1 \<in> set (load example_raw)" "example_df ! 3 \<in> set (load example_raw)"
    unfolding example_df_def[symmetric] by (simp_all add: example_df_rows)
  from get_heatpump_share_strictly_ascending[of sequential_sum example_df "''B''" Monthly
      example_raw] v m i
  show ?thesis by auto
qed

text \<open>
  Claim C4. For a location with \<open>N\<close> records and each of the three resolutions, the groups
  that \<^verbatim>\<open>get_heatpump_share\<close> reduces partition the records of the location: the sizes
  of the groups add up to \<open>N\<close>, and the groups together hold every record exactly once.
\<close>

theorem groupby_partitions_records:
  "(\<Sum>(k, g)\<leftarrow>groupby (\<lambda>r. (date r, hour r)) (filter_by_location df loc). length g)
     = length (filter_by_location df loc) \<and>
   (\<Sum>(k, g)\<leftarrow>groupby date (filter_by_location df loc). length g)
     = length (filter_by_location df loc) \<and>
   (\<Sum>(k, g)\<leftarrow>groupby month (filter_by_location df loc). length g)
     = length (filter_by_location df loc) \<and>
   mset (concat (map snd (groupby (\<lambda>r. (date r, hour r)) (filter_by_location df loc))))
     = mset (filter_by_location df loc) \<and>
   mset (concat (map snd (groupby date (filter_by_location df loc))))
     = mset (filter_by_location df loc) \<and>
   mset (concat (map snd (groupby month (filter_by_location df loc))))
     = mset (filter_by_location df loc) \<and>
   (filter_by_location df loc \<noteq> [] \<longrightarrow>
      get_heatpump_share sum64 df loc Hourly =
        Inr (HourlyShare (map (\<lambda>(k, g). (k, series_mean sum64 (map heatpump_pct g)))
               (groupby (\<lambda>r. (date r, hour r)) (filter_by_location df loc)))) \<and>
      get_heatpump_share sum64 df loc Daily =
        Inr (DailyShare (map (\<lambda>(k, g). (k, series_mean sum64 (map heatpump_pct g)))
               (groupby date (filter_by_location df loc)))) \<and>
      get_heatpump_share sum64 df loc Monthly =
        Inr (MonthlyShare (map (\<lambda>(k, g). (k, series_mean sum64 (map heatpump_pct g)))
               (groupby month (filter_by_location df loc)))))"
  by (simp add: groupby_sizes groupby_mset get_heatpump_share_def filter_by_location_def
      groupby_mean_def Let_def)

theorem groupby_partitions_records_witness:
  "filter_by_location example_df ''A'' \<noteq> [] \<and>
   length (filter_by_location example_df ''A'') = 3 \<and>
   (\<Sum>(k, g)\<leftarrow>groupby (\<lambda>r. (date r, hour r)) (filter_by_location example_df ''A''). length g) = 3 \<and>
   (\<Sum>(k, g)\<leftarrow>groupby date (filter_by_location example_df ''A''). length g) = 3 \<and>
   (\<Sum>(k, g)\<leftarrow>groupby month (filter_by_location example_df ''A''). length g) = 3"
proof -
  have n: "length (filter_by_location example_df ''A'') = 3"
    by (simp add: example_df_rows filter_by_location_def)
  then have ne: "filter_by_location example_df ''A'' \<noteq> []" by auto
  from groupby_partitions_records[of example_df "''A''" sequential_sum] n ne
  show ?thesis by simp
qed

subsection \<open>Unknown locations\<close>

text \<open>
  Claim C2. \<^verbatim>\<open>get_heatpump_share\<close> and \<^verbatim>\<open>get_summary_metrics\<close> raise
  \<open>LocationNotFound\<close> exactly when no row of the frame has the queried string as its
  \<^verbatim>\<open>Location\<close>: the comparison is equality of strings, against the stripped value of the
  file. The guard comes before the aggregation: on a location without rows the answer is
  the error, not the empty series or the statistics of an empty series that the
  reductions would give. In particular \<^verbatim>\<open>"unknown-location"\<close> with resolution \<^verbatim>\<open>daily\<close>
  raises \<open>LocationNotFound\<close> on a frame that has no such location.
\<close>

theorem location_not_found_iff_no_record:
  "(get_heatpump_share sum64 df loc res = Inl LocationNotFound) =
     (filter_by_location df loc = []) \<and>
   (get_summary_metrics sum64 df loc = Inl LocationNotFound) =
     (filter_by_location df loc = []) \<and>
   (filter_by_location df loc = []) = (loc \<notin> Location ` set df) \<and>
   (filter_by_location (load raw) loc = []) = (loc \<notin> (\<lambda>r. strip (raw_Location r)) ` set raw) \<and>
   (''unknown-location'' \<notin> Location ` set df \<longrightarrow>
      get_heatpump_share sum64 df ''unknown-location'' Daily = Inl LocationNotFound)"
proof -
  have a: "(filter_by_location df l = []) = (l \<notin> Location ` set df)" for df l
    by (auto simp: filter_by_location_def filter_empty_conv)
  have b: "(get_heatpump_share sum64 df l r = Inl LocationNotFound) =
      (filter_by_location df l = [])"
    for l r
    by (simp add: get_heatpump_share_def filter_by_location_def Let_def)
  have c: "(get_summary_metrics sum64 df loc = Inl LocationNotFound) =
      (filter_by_location df loc = [])"
    by (simp add: get_summary_metrics_def filter_by_location_def Let_def)
  have d: "Location ` set (load raw) = (\<lambda>r. strip (raw_Location r)) ` set raw"
    by (simp add: load_def load_row_def Let_def image_image)
  show ?thesis using a b c d by simp
qed

theorem location_not_found_iff_no_record_witness:
  "''unknown-location'' \<notin> Location ` set example_df \<and>
   get_heatpump_share sequential_sum example_df ''unknown-location'' Daily =
     Inl LocationNotFound \<and>
   get_summary_metrics sequential_sum example_df ''unknown-location'' = Inl LocationNotFound \<and>
   get_heatpump_share sequential_sum example_df ''a'' Daily = Inl LocationNotFound \<and>
   get_heatpump_share sequential_sum example_df '' A '' Daily = Inl LocationNotFound"
proof -
  have u: "''unknown-location'' \<notin> Location ` set example_df"
    and l: "''a'' \<notin> Location ` set example_df"
    and w: "'' A '' \<notin> Location ` set example_df"
    by (simp_all add: example_df_rows)
  from location_not_found_iff_no_record[of sequential_sum example_df "''unknown-location''" Daily]
    location_not_found_iff_no_record[of sequential_sum example_df "''a''" Daily]
    location_not_found_iff_no_record[of sequential_sum example_df "'' A ''" Daily]
    u l w
  show ?thesis by simp
qed



subsection \<open>Time buckets\<close>

text \<open>
  Claim C6. The month bucket of a record is taken from the UTC instant read as a naive
  civil timestamp: dropping the zone of the UTC-normalised timestamp leaves the instant
  itself, and the bucket is the year and month of its civil date, the same date that is
  the daily bucket. For a well-formed timestamp written with any offset that date is the
  calendar date in UTC, which is the written date, the day before it or the day after
  it, according to the time of day less the offset; it is not the written local date.
  For a timestamp written in UTC the bucket is the year and month as written. A record
  at 2023-01-31T23:30:00+01:00 (22:30 UTC) falls in January 2023 and a record at
  2023-02-01T00:10:00Z in February 2023; a record at 2023-02-01T00:30:00+01:00 falls in
  January 2023, one at 2023-01-31T23:30:00-05:00 in February 2023, and one at
  2024-01-01T00:30:00+01:00 in December 2023.
\<close>

theorem month_bucket_from_naive_utc:
  "tz_localize_None (to_datetime_utc (raw_timestamp r)) =
     instant (to_datetime_utc (raw_timestamp r)) \<and>
   month (load_row r) = to_period_M (instant (to_datetime_utc (raw_timestamp r))) \<and>
   month (load_row r) = (case date (load_row r) of (y, m, d) \<Rightarrow> (y, m)) \<and>
   (well_formed (raw_timestamp r) \<longrightarrow>
      date (load_row r) = utc_date (raw_timestamp r) \<and>
      month (load_row r) = year_month (utc_date (raw_timestamp r))) \<and>
   (written_in_utc (raw_timestamp r) \<longrightarrow>
      month (load_row r) = (ts_year (raw_timestamp r), ts_month (raw_timestamp r)) \<and>
      date (load_row r) =
        (ts_year (raw_timestamp r), ts_month (raw_timestamp r), ts_day (raw_timestamp r))) \<and>
   date (load_row (r\<lparr>raw_timestamp := mk_ts 2023 1 31 23 30 60\<rparr>)) = (2023, 1, 31) \<and>
   month (load_row (r\<lparr>raw_timestamp := mk_ts 2023 1 31 23 30 60\<rparr>)) = (2023, 1) \<and>
   date (load_row (r\<lparr>raw_timestamp := mk_ts 2023 2 1 0 10 0\<rparr>)) = (2023, 2, 1) \<and>
   month (load_row (r\<lparr>raw_timestamp := mk_ts 2023 2 1 0 10 0\<rparr>)) = (2023, 2) \<and>
   date (load_row (r\<lparr>raw_timestamp := mk_ts 2023 2 1 0 30 60\<rparr>)) = (2023, 1, 31) \<and>
   month (load_row (r\<lparr>raw_timestamp := mk_ts 2023 2 1 0 30 60\<rparr>)) = (2023, 1) \<and>
   date (load_row (r\<lparr>raw_timestamp := mk_ts 2023 1 31 23 30 (- 300)\<rparr>)) = (2023, 2, 1) \<and>
   month (load_row (r\<lparr>raw_timestamp := mk_ts 2023 1 31 23 30 (- 300)\<rparr>)) = (2023, 2) \<and>
   date (load_row (r\<lparr>raw_timestamp := mk_ts 2024 1 1 0 30 60\<rparr>)) = (2023, 12, 31) \<and>
   month (load_row (r\<lparr>raw_timestamp := mk_ts 2024 1 1 0 30 60\<rparr>)) = (2023, 12)"
proof -
  have n: "tz_localize_None (to_datetime_utc t) = instant (to_datetime_utc t)" for t
    by (simp add: tz_localize_None_def wall_def to_datetime_utc_def)
  have m: "month (load_row r) = to_period_M (instant (to_datetime_utc (raw_timestamp r)))" for r
    by (simp add: load_row_def Let_def n)
  have d: "date (load_row r) = civil_from_days (instant (to_datetime_utc (raw_timestamp r)) div 86400)"
    for r
    using n[of "raw_timestamp r"] by (simp add: load_row_def Let_def dt_date_def tz_localize_None_def)
  have md: "month (load_row r) = (case date (load_row r) of (y, m, d) \<Rightarrow> (y, m))" for r
    unfolding m d by (simp add: to_period_M_def)
  have i: "instant (to_datetime_utc (mk_ts 2023 1 31 23 30 60)) = 1675204200"
    "instant (to_datetime_utc (mk_ts 2023 2 1 0 10 0)) = 1675210200"
    "instant (to_datetime_utc (mk_ts 2023 2 1 0 30 60)) = 1675207800"
    "instant (to_datetime_utc (mk_ts 2023 1 31 23 30 (- 300))) = 1675225800"
    "instant (to_datetime_utc (mk_ts 2024 1 1 0 30 60)) = 1704065400"
    by code_simp+
  have c: "civil_from_days 19388 = (2023, 1, 31)" "civil_from_days 19389 = (2023, 2, 1)"
    "civil_from_days 19722 = (2023, 12, 31)"
    by code_simp+
  have e1: "date (load_row (r\<lparr>raw_timestamp := mk_ts 2023 1 31 23 30 60\<rparr>)) = (2023, 1, 31)"
    unfolding d by (simp add: i c)
  have e2: "date (load_row (r\<lparr>raw_timestamp := mk_ts 2023 2 1 0 10 0\<rparr>)) = (2023, 2, 1)"
    unfolding d by (simp add: i c)
  have e3: "date (load_row (r\<lparr>raw_timestamp := mk_ts 2023 2 1 0 30 60\<rparr>)) = (2023, 1, 31)"
    unfolding d by (simp add: i c)
  have e4: "date (load_row (r\<lparr>raw_timestamp := mk_ts 2023 1 31 23 30 (- 300)\<rparr>)) = (2023, 2, 1)"
    unfolding d by (simp add: i c)
  have e5: "date (load_row (r\<lparr>raw_timestamp := mk_ts 2024 1 1 0 30 60\<rparr>)) = (2023, 12, 31)"
    unfolding d by (simp add: i c)
  have w: "well_formed (raw_timestamp r) \<longrightarrow>
      date (load_row r) = utc_date (raw_timestamp r) \<and>
      month (load_row r) = year_month (utc_date (raw_timestamp r))"
    using well_formed_buckets[of r] by blast
  have u: "written_in_utc (raw_timestamp r) \<longrightarrow>
      month (load_row r) = (ts_year (raw_timestamp r), ts_month (raw_timestamp r)) \<and>
      date (load_row r) =
        (ts_year (raw_timestamp r), ts_month (raw_timestamp r), ts_day (raw_timestamp r))"
    using written_in_utc_buckets(1,2)[of r] by blast
  have m1: "month (load_row (r\<lparr>raw_timestamp := mk_ts 2023 1 31 23 30 60\<rparr>)) = (2023, 1)"
    unfolding md e1 by simp
  have m2: "month (load_row (r\<lparr>raw_timestamp := mk_ts 2023 2 1 0 10 0\<rparr>)) = (2023, 2)"
    unfolding md e2 by simp
  have m3: "month (load_row (r\<lparr>raw_timestamp := mk_ts 2023 2 1 0 30 60\<rparr>)) = (2023, 1)"
    unfolding md e3 by simp
  have m4: "month (load_row (r\<lparr>raw_timestamp := mk_ts 2023 1 31 23 30 (- 300)\<rparr>)) = (2023, 2)"
    unfolding md e4 by simp
  have m5: "month (load_row (r\<lparr>raw_timestamp := mk_ts 2024 1 1 0 30 60\<rparr>)) = (2023, 12)"
    unfolding md e5 by simp
  have g: "tz_localize_None (to_datetime_utc (raw_timestamp r)) =
      instant (to_datetime_utc (raw_timestamp r)) \<and>
    month (load_row r) = to_period_M (instant (to_datetime_utc (raw_timestamp r))) \<and>
    month (load_row r) = (case date (load_row r) of (y, m, d) \<Rightarrow> (y, m))"
    using n[of "raw_timestamp r"] m[of r] md[of r] by blast
  from g w u e1 m1 e2 m2 e3 m3 e4 m4 e5 m5 show ?thesis by blast
qed

theorem month_bucket_from_naive_utc_witness:
  "well_formed (mk_ts 2023 2 1 0 30 60) \<and>
   utc_date (mk_ts 2023 2 1 0 30 60) = (2023, 1, 31) \<and>
   month (load_row ((hd example_raw)\<lparr>raw_timestamp := mk_ts 2023 2 1 0 30 60\<rparr>)) = (2023, 1) \<and>
   date (load_row ((hd example_raw)\<lparr>raw_timestamp := mk_ts 2023 2 1 0 30 60\<rparr>)) = (2023, 1, 31) \<and>
   well_formed (raw_timestamp (example_raw ! 1)) \<and>
   written_in_utc (raw_timestamp (example_raw ! 1)) \<and>
   month (load_row (example_raw ! 1)) = (2023, 2) \<and>
   date (load_row (example_raw ! 1)) = (2023, 2, 1) \<and>
   well_formed (raw_timestamp (hd example_raw)) \<and>
   month (load_row (hd example_raw)) = (2023, 1) \<and>
   date (load_row (hd example_raw)) = (2023, 1, 31)"
proof -
  let ?r = "hd example_raw" and ?q = "example_raw ! 1"
  let ?p = "?r\<lparr>raw_timestamp := mk_ts 2023 2 1 0 30 60\<rparr>"
  have wp: "well_formed (mk_ts 2023 2 1 0 30 60)"
    by (simp add: well_formed_def valid_date_def mk_ts_def days_in_month_def)
  have up: "utc_date (mk_ts 2023 2 1 0 30 60) = (2023, 1, 31)"
    by (simp add: utc_date_def prev_day_def mk_ts_def days_in_month_def)
  have tp: "raw_timestamp ?p = mk_ts 2023 2 1 0 30 60" by simp
  from month_bucket_from_naive_utc[of ?p]
  have "well_formed (raw_timestamp ?p) \<longrightarrow>
      date (load_row ?p) = utc_date (raw_timestamp ?p) \<and>
      month (load_row ?p) = year_month (utc_date (raw_timestamp ?p))"
    by blast
  then have p: "date (load_row ?p) = (2023, 1, 31) \<and> month (load_row ?p) = (2023, 1)"
    unfolding tp up using wp by (simp add: year_month_def)
  have wq: "written_in_utc (raw_timestamp ?q)" "well_formed (raw_timestamp ?q)"
    by (simp_all add: example_raw_def written_in_utc_def well_formed_def valid_date_def mk_ts_def
        days_in_month_def)
  have f: "ts_year (raw_timestamp ?q) = 2023" "ts_month (raw_timestamp ?q) = 2"
    "ts_day (raw_timestamp ?q) = 1"
    by (simp_all add: example_raw_def mk_ts_def)
  from month_bucket_from_naive_utc[of ?q] wq
  have q: "month (load_row ?q) = (2023, 2) \<and> date (load_row ?q) = (2023, 2, 1)"
    unfolding f by blast
  have wr: "well_formed (raw_timestamp ?r)"
    by (simp add: example_raw_def well_formed_def valid_date_def mk_ts_def days_in_month_def)
  have ur: "utc_date (raw_timestamp ?r) = (2023, 1, 31)"
    by (simp add: example_raw_def utc_date_def mk_ts_def)
  from month_bucket_from_naive_utc[of ?r]
  have "well_formed (raw_timestamp ?r) \<longrightarrow>
      date (load_row ?r) = utc_date (raw_timestamp ?r) \<and>
      month (load_row ?r) = year_month (utc_date (raw_timestamp ?r))"
    by blast
  then have r: "month (load_row ?r) = (2023, 1) \<and> date (load_row ?r) = (2023, 1, 31)"
    unfolding ur using wr by (simp add: year_month_def)
  from wp up p wq q wr r show ?thesis by blast
qed

subsection \<open>The report endpoint\<close>

text \<open>
  Claim C10, as stated, for every location: on a location without records
  \<^verbatim>\<open>download_report\<close> does not return the (empty) sequence of matching records, it raises
  \<open>LocationNotFound\<close>.
\<close>

theorem download_report_unknown_location_counterexample:
  "filter_by_location example_df ''C'' = [] \<and>
   download_report example_df ''C'' \<noteq> Inr (filter_by_location example_df ''C'') \<and>
   download_report example_df ''C'' = Inl LocationNotFound"
  by (simp add: example_df_rows filter_by_location_def download_report_def)

text \<open>
  Claim C10, amended. For a location with at least one record, \<^verbatim>\<open>download_report\<close>
  returns exactly the rows whose \<^verbatim>\<open>Location\<close> equals the queried string, as a
  subsequence of the frame in frame order, each row as it stands in the frame; for a
  location without records it raises \<open>LocationNotFound\<close>.
\<close>

theorem download_report_rows_in_order:
  "(filter_by_location df loc \<noteq> [] \<longrightarrow> download_report df loc = Inr (filter_by_location df loc)) \<and>
   (filter_by_location df loc = [] \<longrightarrow> download_report df loc = Inl LocationNotFound) \<and>
   subseq (filter_by_location df loc) df \<and>
   set (filter_by_location df loc) = {r \<in> set df. Location r = loc}"
  by (simp add: download_report_def filter_by_location_def)

theorem download_report_rows_in_order_witness:
  "filter_by_location example_df ''B'' \<noteq> [] \<and>
   download_report example_df ''B'' = Inr [example_df ! 1, example_df ! 3] \<and>
   filter_by_location example_df ''C'' = [] \<and>
   download_report example_df ''C'' = Inl LocationNotFound"
proof -
  have b: "filter_by_location example_df ''B'' = [example_df ! 1, example_df ! 3]"
    and c: "filter_by_location example_df ''C'' = []"
    by (simp_all add: example_df_rows filter_by_location_def)
  from download_report_rows_in_order[of example_df "''B''"]
    download_report_rows_in_order[of example_df "''C''"] b c
  show ?thesis by simp
qed

subsection \<open>The locations endpoint\<close>

lemma drop_duplicates_set: "set (drop_duplicates xs) = set xs"
  by (induction xs rule: drop_duplicates.induct) auto

lemma drop_duplicates_distinct: "distinct (drop_duplicates xs)"
  by (induction xs rule: drop_duplicates.induct) (auto simp: drop_duplicates_set)

lemma drop_duplicates_subseq: "subseq (drop_duplicates xs) xs"
proof (induction xs rule: drop_duplicates.induct)
  case 1
  show ?case by simp
next
  case (2 x xs)
  have "subseq (filter (\<lambda>y. y \<noteq> x) xs) xs" by simp
  with 2 have "subseq (drop_duplicates (filter (\<lambda>y. y \<noteq> x) xs)) xs"
    using subseq_order.order_trans by blast
  then show ?case by simp
qed

lemma sort_values_Location_props:
  "sorted (map fst (sort_values_Location locs))"
  "set (sort_values_Location locs) = set locs"
  "distinct (sort_values_Location locs) = distinct locs"
  by (simp_all add: sort_values_Location_def)

lemma list_locations_returns_sorted_distinct:
  assumes "list_locations re_rest df t = Inr out"
  shows "distinct out \<and> sorted (map fst out) \<and>
         (\<exists>kept. subseq kept df \<and> set out = (\<lambda>r. (Location r, Town r)) ` set kept \<and>
                  (t = None \<or> t = Some [] \<longrightarrow> kept = df))"
proof -
  have "\<exists>kept. subseq kept df \<and> (t = None \<or> t = Some [] \<longrightarrow> kept = df) \<and>
      out = sort_values_Location (drop_duplicates (map (\<lambda>r. (Location r, Town r)) kept))"
  proof (cases "t = None \<or> t = Some []")
    case True
    then have "out = sort_values_Location (drop_duplicates (map (\<lambda>r. (Location r, Town r)) df))"
      using assms by (auto simp: list_locations_def)
    then show ?thesis by (intro exI[of _ df]) simp
  next
    case False
    then obtain p where p: "t = Some p" "p \<noteq> []" by (cases t) auto
    from assms obtain m where "re_compile re_rest p = Inr m"
      and "out = sort_values_Location
        (drop_duplicates (map (\<lambda>r. (Location r, Town r)) (filter (\<lambda>r. m (Town r)) df)))"
      by (auto simp: list_locations_def p split: sum.splits)
    then show ?thesis using False by (intro exI[of _ "filter (\<lambda>r. m (Town r)) df"]) auto
  qed
  then obtain kept where k: "subseq kept df" "t = None \<or> t = Some [] \<longrightarrow> kept = df"
    and out: "out = sort_values_Location (drop_duplicates (map (\<lambda>r. (Location r, Town r)) kept))"
    by blast
  show ?thesis
    unfolding out using k
    by (auto simp: sort_values_Location_props drop_duplicates_set drop_duplicates_distinct)
qed

lemma list_locations_unfiltered:
  "list_locations re_rest df None =
     Inr (sort_values_Location (drop_duplicates (map (\<lambda>r. (Location r, Town r)) df)))"
  "list_locations re_rest df (Some []) = list_locations re_rest df None"
  by (simp_all add: list_locations_def)

lemma re_special_code:
  "re_special c \<longleftrightarrow>
     (of_char c :: nat) \<in> {46, 94, 36, 42, 43, 63, 123, 125, 91, 93, 124, 40, 41, 92}"
proof -
  have "(c = d) = ((of_char c :: nat) = of_char d)" for d
    by simp
  then show ?thesis
    unfolding re_special_def by (simp del: of_char_eq_iff)
qed

lemma ordinary_char_lower: "ordinary c \<Longrightarrow> ordinary (char_lower c)"
  by (auto simp: ordinary_def char_lower_def re_special_code Let_def)

lemma ordinary_char_upper: "ordinary c \<Longrightarrow> ordinary (char_upper c)"
  by (auto simp: ordinary_def char_upper_def re_special_code Let_def)

lemma char_lower_idem: "char_lower (char_lower c) = char_lower c"
  by (auto simp: char_lower_def Let_def)

lemma char_lower_upper: "char_lower (char_upper c) = char_lower c"
proof -
  have "char_of (of_char c :: nat) = c" by simp
  then show ?thesis
    by (auto simp: char_lower_def char_upper_def Let_def)
qed

lemma str_lower_idem: "str_lower (str_lower t) = str_lower t"
  by (simp add: str_lower_def char_lower_idem)

lemma str_lower_upper: "str_lower (str_upper t) = str_lower t"
  by (simp add: str_lower_def str_upper_def char_lower_upper)

lemma match_here_literal:
  "match_here (map Lit t) s \<longleftrightarrow> prefix (str_lower t) (str_lower s)"
proof (induction t arbitrary: s)
  case Nil
  show ?case by (simp add: str_lower_def)
next
  case (Cons c t)
  show ?case
  proof (cases s)
    case Nil
    then show ?thesis by (simp add: str_lower_def)
  next
    case (Cons d ds)
    with Cons.IH[of ds] show ?thesis by (auto simp: str_lower_def)
  qed
qed

lemma search_literal:
  "search (map Lit t) s \<longleftrightarrow> contains_ignoring_case s t"
proof (induction s)
  case Nil
  show ?case by (cases t) (simp_all add: contains_ignoring_case_def str_lower_def)
next
  case (Cons d ds)
  have "sublist (str_lower t) (str_lower (d # ds)) \<longleftrightarrow>
      prefix (str_lower t) (str_lower (d # ds)) \<or> sublist (str_lower t) (str_lower ds)"
    by (simp add: str_lower_def sublist_Cons_right)
  with Cons show ?case
    by (simp add: contains_ignoring_case_def match_here_literal)
qed

lemma parse_simple_literal:
  "\<forall>c\<in>set t. ordinary c \<Longrightarrow> parse_simple t = Some (map Lit t)"
proof (induction t)
  case Nil
  show ?case by simp
next
  case (Cons c t)
  then have "ordinary c" by simp
  then have "c \<noteq> CHR ''.''" by (auto simp: ordinary_def re_special_def)
  with Cons show ?case by simp
qed

lemma re_compile_literal:
  assumes "\<forall>c\<in>set t. ordinary c"
  shows "re_compile re_rest t = Inr (search (map Lit t))"
proof (cases t)
  case Nil
  then show ?thesis by (simp add: re_compile_def)
next
  case (Cons c cs)
  with assms have "ordinary c" by simp
  then have "c \<notin> set ''*+?''" by (auto simp: ordinary_def re_special_def)
  then show ?thesis
    using parse_simple_literal[OF assms] Cons by (simp add: re_compile_def)
qed

lemma list_locations_literal_filter:
  assumes "\<forall>c\<in>set t. ordinary c"
  shows "list_locations re_rest df (Some t) =
     Inr (sort_values_Location (drop_duplicates (map (\<lambda>r. (Location r, Town r))
            (filter (\<lambda>r. contains_ignoring_case (Town r) t) df))))"
proof (cases "t = []")
  case True
  have "contains_ignoring_case s []" for s
    by (simp add: contains_ignoring_case_def str_lower_def)
  then show ?thesis using True by (simp add: list_locations_def)
next
  case False
  then show ?thesis
    by (simp add: list_locations_def re_compile_literal[OF assms] search_literal)
qed

lemma list_locations_literal_filter_case:
  assumes "\<forall>c\<in>set t. ordinary c"
  shows "list_locations re_rest df (Some (str_lower t)) =
         list_locations re_rest df (Some (str_upper t))"
proof -
  have l: "\<forall>c\<in>set (str_lower t). ordinary c" and u: "\<forall>c\<in>set (str_upper t). ordinary c"
    using assms by (auto simp: str_lower_def str_upper_def ordinary_char_lower ordinary_char_upper)
  have "contains_ignoring_case s (str_lower t) = contains_ignoring_case s (str_upper t)" for s
    by (simp add: contains_ignoring_case_def str_lower_idem str_lower_upper)
  then show ?thesis
    by (simp add: list_locations_literal_filter[OF l] list_locations_literal_filter[OF u])
qed

text \<open>
  Claim C7 at the filter \<^verbatim>\<open>*\<close>. The claim has \<^verbatim>\<open>list_locations\<close> return the sorted,
  duplicate-free pairs for every town filter. The filter is compiled as a regular
  expression, so on \<^verbatim>\<open>*\<close> the call raises \<^verbatim>\<open>re.error\<close> and returns nothing, on every
  frame. (For an absent or empty filter, and whenever the call returns, the result is
  duplicate-free and ascending in \<^verbatim>\<open>Location\<close>: \<open>list_locations_returns_sorted_distinct\<close>.)
\<close>

theorem list_locations_repetition_operator_raises:
  "list_locations re_rest df (Some ''*'') = Inl ReError \<and>
   list_locations re_rest example_df (Some ''*'') = Inl ReError"
  by (simp add: list_locations_def re_compile_def)

text \<open>
  Claim C8 at the filter \<^verbatim>\<open>.\<close>. The claim keeps a row exactly when its town contains the
  filter as a substring, ignoring case. Neither \<^verbatim>\<open>Oslo\<close> nor \<^verbatim>\<open>Bergen\<close> contains a dot,
  yet with the filter \<^verbatim>\<open>.\<close> the call returns both locations: the dot is read as the
  pattern that matches any character. (For a filter of ordinary characters the claim
  holds: \<open>list_locations_literal_filter\<close> and \<open>list_locations_literal_filter_case\<close>.)
\<close>

theorem list_locations_dot_keeps_every_town:
  "list_locations re_rest example_df (Some ''.'') = Inr [(''A'', ''Oslo''), (''B'', ''Bergen'')] \<and>
   \<not> contains_ignoring_case ''Oslo'' ''.'' \<and>
   \<not> contains_ignoring_case ''Bergen'' ''.''"
proof -
  have "list_locations re_rest example_df (Some ''.'') = Inr [(''A'', ''Oslo''), (''B'', ''Bergen'')]"
    by (simp add: list_locations_def re_compile_def example_df_rows sort_values_Location_def)
  moreover have "\<not> contains_ignoring_case ''Oslo'' ''.''"
    by code_simp
  moreover have "\<not> contains_ignoring_case ''Bergen'' ''.''"
    by code_simp
  ultimately show ?thesis by simp
qed

end
